theory Spec2Isabelle
  imports Main
begin

section \<open>JavaScript arrays\<close>

text \<open>
  Reading a JavaScript array outside its bounds yields \<open>undefined\<close>; the model returns
  \<open>None\<close> there, so that every \<open>!== undefined\<close> test and every \<open>??\<close> of the source
  is a case distinction of the model.
\<close>

definition js_index :: "'a list \<Rightarrow> int \<Rightarrow> 'a option" where
  "js_index xs i = (if 0 \<le> i \<and> i < int (length xs) then Some (xs ! nat i) else None)"

section \<open>Tournament format generators (shared/src/tournament-formats.ts)\<close>

datatype MatchStage = GROUP | ROUND_OF_16 | QUARTERFINAL | SEMIFINAL | THIRD_PLACE | FINAL

text \<open>
  Team indices are JavaScript numbers; the round-robin generator stores the placeholder
  \<open>-1\<close> among them, so they are integers here. \<open>null\<close> is \<open>None\<close>.
\<close>

record GeneratedMatch =
  homeTeamIndex :: "int option"
  awayTeamIndex :: "int option"
  round :: nat
  matchNumber :: nat
  stage :: MatchStage
  groupIndex :: "nat option"

record GeneratedGroup =
  name :: string
  teamIndices :: "int list"

record GeneratedTournament =
  groups :: "GeneratedGroup list"
  matches :: "GeneratedMatch list"

subsection \<open>generateRoundRobin\<close>

text \<open>
  The rotation at the end of a round: \<open>first = teamsWithBye[0]\<close>; when it is defined,
  \<open>last = teamsWithBye.pop()\<close>, then \<open>splice(1, 0, last)\<close> and \<open>teamsWithBye[0] = first\<close>.
  An empty array has no first element and is left alone; a popped element of a non-empty
  array is always defined.
\<close>

definition rotateTeams :: "int list \<Rightarrow> int list" where
  "rotateTeams teamsWithBye =
     (case js_index teamsWithBye 0 of
        None \<Rightarrow> teamsWithBye
      | Some first \<Rightarrow>
          (let lst = last teamsWithBye;
               popped = butlast teamsWithBye;
               spliced = take 1 popped @ [lst] @ drop 1 popped
           in spliced[0 := first]))"

text \<open>
  One iteration of the inner loop: the pairing of position \<open>match\<close> with position
  \<open>n - 1 - match\<close>, pushed unless one side is undefined or the placeholder \<open>-1\<close>.
  The accumulator is the list of matches pushed so far and the running \<open>matchNumber\<close>.
\<close>

definition rrMatchStep ::
  "int list \<Rightarrow> nat \<Rightarrow> nat \<Rightarrow> nat \<Rightarrow> GeneratedMatch list \<times> nat \<Rightarrow> GeneratedMatch list \<times> nat" where
  "rrMatchStep teamsWithBye n rnd mtch acc =
     (case acc of (ms, matchNo) \<Rightarrow>
        (case (js_index teamsWithBye (int mtch), js_index teamsWithBye (int n - 1 - int mtch)) of
           (Some home, Some away) \<Rightarrow>
             if home \<noteq> -1 \<and> away \<noteq> -1
             then (ms @ [\<lparr>homeTeamIndex = Some home, awayTeamIndex = Some away,
                          round = rnd + 1, matchNumber = matchNo, stage = GROUP,
                          groupIndex = None\<rparr>], matchNo + 1)
             else acc
         | _ \<Rightarrow> acc))"

text \<open>One iteration of the outer loop: all pairings of the round, then the rotation.\<close>

definition rrRoundStep ::
  "nat \<Rightarrow> nat \<Rightarrow> nat \<Rightarrow> int list \<times> GeneratedMatch list \<times> nat
     \<Rightarrow> int list \<times> GeneratedMatch list \<times> nat" where
  "rrRoundStep n matchesPerRound rnd st =
     (case st of (teamsWithBye, acc) \<Rightarrow>
        (rotateTeams teamsWithBye,
         fold (rrMatchStep teamsWithBye n rnd) [0..<matchesPerRound] acc))"

text \<open>
  \<open>n\<close> is the length of \<open>teamsWithBye\<close> before the loops and is always even, so
  \<open>n / 2\<close> is exact; for \<open>n = 0\<close> the source's \<open>rounds = -1\<close> and the model's
  \<open>0 - 1 = 0\<close> both run the outer loop zero times.
\<close>

definition generateRoundRobin :: "nat \<Rightarrow> GeneratedTournament" where
  "generateRoundRobin teamCount =
     (let teams = map int [0..<teamCount];
          teamsWithBye = (if teamCount mod 2 = 1 then teams @ [-1] else teams);
          n = length teamsWithBye;
          rounds = n - 1;
          matchesPerRound = n div 2;
          final = fold (rrRoundStep n matchesPerRound) [0..<rounds] (teamsWithBye, [], 1)
      in \<lparr>groups = [], matches = fst (snd final)\<rparr>)"

subsection \<open>generateSeededBracket, getStageForRound, generateSingleElimination\<close>

text \<open>
  \<open>generateSeededBracket\<close> halves its argument (\<open>size\<close> in the source) until it
  reaches 1 or 2. From 0, or from a size whose half is not an integer, the source's
  recursion never reaches a base case and the call ends in a stack overflow: that is
  \<open>None\<close>.
\<close>

function generateSeededBracket :: "nat \<Rightarrow> int list option" where
  "generateSeededBracket sz =
     (if sz = 1 then Some [0]
      else if sz = 2 then Some [0, 1]
      else if sz = 0 \<or> odd sz then None
      else (case generateSeededBracket (sz div 2) of
              None \<Rightarrow> None
            | Some smaller \<Rightarrow>
                Some (concat (map (\<lambda>seed. [seed, int sz - 1 - seed]) smaller))))"
  by pat_completeness auto
termination
  by (relation "measure id") auto

declare generateSeededBracket.simps [simp del]

definition getStageForRound :: "nat \<Rightarrow> nat \<Rightarrow> MatchStage" where
  "getStageForRound rnd totalRounds =
     (let roundsFromEnd = int totalRounds - int rnd
      in if roundsFromEnd = 0 then FINAL
         else if roundsFromEnd = 1 then SEMIFINAL
         else if roundsFromEnd = 2 then QUARTERFINAL
         else if roundsFromEnd = 3 then ROUND_OF_16
         else GROUP)"

text \<open>
  \<open>Math.ceil(Math.log2(n))\<close> for \<open>n \<ge> 1\<close>: the least \<open>k\<close> with \<open>n \<le> 2 ^ k\<close>. The
  floating-point logarithm gives this value for every count an array can hold.
\<close>

fun ceil_log2 :: "nat \<Rightarrow> nat" where
  "ceil_log2 n = (if n \<le> 1 then 0 else Suc (ceil_log2 ((n + 1) div 2)))"

declare ceil_log2.simps [simp del]

text \<open>
  The first loop runs for \<open>i < bracketSize / 2\<close>: once for \<open>bracketSize = 1\<close>
  (where \<open>0 < 0.5\<close>), and \<open>bracketSize div 2\<close> times for the even sizes. In the later
  rounds \<open>matchesInPrevRound / 2\<close> is exact, \<open>bracketSize\<close> being a power of two with
  \<open>rounds\<close> as its exponent.
\<close>

definition firstRoundMatch :: "nat \<Rightarrow> nat \<Rightarrow> int list \<Rightarrow> nat \<Rightarrow> GeneratedMatch" where
  "firstRoundMatch teamCount rounds seededPositions i =
     (let pos1 = js_index seededPositions (int i * 2);
          pos2 = js_index seededPositions (int i * 2 + 1);
          team1 = (case pos1 of Some p \<Rightarrow> if p < int teamCount then Some p else None
                              | None \<Rightarrow> None);
          team2 = (case pos2 of Some p \<Rightarrow> if p < int teamCount then Some p else None
                              | None \<Rightarrow> None)
      in \<lparr>homeTeamIndex = team1, awayTeamIndex = team2, round = 1, matchNumber = i + 1,
          stage = getStageForRound 1 rounds, groupIndex = None\<rparr>)"

text \<open>
  One later round: \<open>matchesInPrevRound / 2\<close> matches with both sides \<open>null\<close>. The state
  is \<open>matchesInPrevRound\<close>, the running \<open>matchNumber\<close> and the matches so far.
\<close>

definition seRoundStep ::
  "nat \<Rightarrow> nat \<Rightarrow> nat \<times> nat \<times> GeneratedMatch list \<Rightarrow> nat \<times> nat \<times> GeneratedMatch list" where
  "seRoundStep rounds rnd st =
     (case st of (matchesInPrevRound, matchNo, ms) \<Rightarrow>
        (let matchesInRound = matchesInPrevRound div 2;
             stg = getStageForRound rnd rounds
         in (matchesInRound, matchNo + matchesInRound,
             ms @ map (\<lambda>i. \<lparr>homeTeamIndex = None, awayTeamIndex = None, round = rnd,
                               matchNumber = matchNo + i, stage = stg, groupIndex = None\<rparr>)
                      [0..<matchesInRound])))"

text \<open>
  For \<open>teamCount = 0\<close>, \<open>Math.log2\<close> is \<open>-Infinity\<close> and \<open>bracketSize\<close> is 0, on which
  \<open>generateSeededBracket\<close> does not return: the result is \<open>None\<close>.
\<close>

definition generateSingleElimination :: "nat \<Rightarrow> GeneratedTournament option" where
  "generateSingleElimination teamCount =
     (let bracketSize = (if teamCount = 0 then 0 else 2 ^ ceil_log2 teamCount);
          rounds = ceil_log2 bracketSize
      in case generateSeededBracket bracketSize of
           None \<Rightarrow> None
         | Some seededPositions \<Rightarrow>
            (let firstRound = map (firstRoundMatch teamCount rounds seededPositions)
                                  [0..<(bracketSize + 1) div 2];
                 final = fold (seRoundStep rounds) [2..<Suc rounds]
                              (bracketSize div 2, length firstRound + 1, firstRound)
             in Some \<lparr>groups = [], matches = snd (snd final)\<rparr>))"

subsection \<open>generateGroupKnockout\<close>

text \<open>
  The snake draft: the team goes to \<open>groups[groupIndex]\<close> when that group exists, then
  the index moves by \<open>direction\<close> and bounces at both ends. The state is
  \<open>(direction, groupIndex, groups)\<close>.
\<close>

definition snakeStep ::
  "nat \<Rightarrow> int \<Rightarrow> int \<times> int \<times> GeneratedGroup list \<Rightarrow> int \<times> int \<times> GeneratedGroup list" where
  "snakeStep groupCount teamIndex st =
     (case st of (direction, groupIdx, gs) \<Rightarrow>
        (let gs' = (case js_index gs groupIdx of
                      None \<Rightarrow> gs
                    | Some g \<Rightarrow> gs[nat groupIdx := g\<lparr>teamIndices := teamIndices g @ [teamIndex]\<rparr>]);
             groupIdx' = groupIdx + direction
         in if groupIdx' \<ge> int groupCount \<or> groupIdx' < 0
            then (direction * (-1), groupIdx' + direction * (-1), gs')
            else (direction, groupIdx', gs')))"

text \<open>
  The matches of group \<open>g\<close>: a round robin over the group's local indices, each index
  mapped back through \<open>groupTeams\<close> (\<open>undefined ?? null\<close> is \<open>None\<close>). The
  accumulator is the list of matches and the running \<open>matchNumber\<close>.
\<close>

definition groupMatchStep ::
  "int list \<Rightarrow> nat \<Rightarrow> GeneratedMatch \<Rightarrow> GeneratedMatch list \<times> nat \<Rightarrow> GeneratedMatch list \<times> nat" where
  "groupMatchStep groupTeams g m acc =
     (case acc of (ms, matchNo) \<Rightarrow>
        (let homeTeam = (case homeTeamIndex m of None \<Rightarrow> None | Some h \<Rightarrow> js_index groupTeams h);
             awayTeam = (case awayTeamIndex m of None \<Rightarrow> None | Some a \<Rightarrow> js_index groupTeams a)
         in (ms @ [\<lparr>homeTeamIndex = homeTeam, awayTeamIndex = awayTeam, round = round m,
                      matchNumber = matchNo, stage = GROUP, groupIndex = Some g\<rparr>],
             matchNo + 1)))"

definition groupStageStep ::
  "GeneratedGroup list \<Rightarrow> nat \<Rightarrow> GeneratedMatch list \<times> nat \<Rightarrow> GeneratedMatch list \<times> nat" where
  "groupStageStep gs g acc =
     (case js_index gs (int g) of
        None \<Rightarrow> acc
      | Some grp \<Rightarrow>
          (let groupTeams = teamIndices grp;
               groupMatches = generateRoundRobin (length groupTeams)
           in fold (groupMatchStep groupTeams g) (matches groupMatches) acc))"

definition knockoutStep ::
  "nat \<Rightarrow> GeneratedMatch \<Rightarrow> GeneratedMatch list \<times> nat \<Rightarrow> GeneratedMatch list \<times> nat" where
  "knockoutStep lastGroupRound m acc =
     (case acc of (ms, matchNo) \<Rightarrow>
        (ms @ [m\<lparr>round := lastGroupRound + round m, matchNumber := matchNo,
                   homeTeamIndex := None, awayTeamIndex := None\<rparr>], matchNo + 1))"

text \<open>
  Group names are \<open>"Group "\<close> followed by the character with code \<open>65 + g\<close>
  (\<open>A\<close>, \<open>B\<close>, ...). The knockout bracket is generated before anything is returned, so
  a bracket that does not return makes the whole call fail.
\<close>

definition generateGroupKnockout :: "nat \<Rightarrow> nat \<Rightarrow> nat \<Rightarrow> GeneratedTournament option" where
  "generateGroupKnockout teamCount groupCount advancingPerGroup =
     (let teamIdxs = map int [0..<teamCount];
          gs0 = map (\<lambda>g. \<lparr>name = ''Group '' @ [char_of (65 + g)], teamIndices = []\<rparr>)
                    [0..<groupCount];
          gs = snd (snd (fold (snakeStep groupCount) teamIdxs (1, 0, gs0)));
          groupStage = fold (groupStageStep gs) [0..<length gs] ([], 1);
          knockoutTeams = groupCount * advancingPerGroup
      in case generateSingleElimination knockoutTeams of
           None \<Rightarrow> None
         | Some knockoutBracket \<Rightarrow>
            (let lastGroupRound = fold max (map round (fst groupStage)) 0;
                 final = fold (knockoutStep lastGroupRound) (matches knockoutBracket) groupStage
             in Some \<lparr>groups = gs, matches = fst final\<rparr>))"

section \<open>Sport rule engine (shared/src/sports.ts)\<close>

datatype MatchStatus = SCHEDULED | LIVE | PAUSED | COMPLETED | CANCELLED

datatype TeamSide = HOME | AWAY

datatype WinnerSide = Home | Away

text \<open>
  Scores, period scores, score increments and period numbers are non-negative integers
  in the repository's schemas (\<open>z.number().int().min(0)\<close>, \<open>.positive()\<close>), so
  they are natural numbers here; where the source subtracts, the subtraction is done on
  integers as the source does it.
\<close>

record SportConfig =
  periods :: nat
  periodName :: string
  scoreIncrements :: "nat list"
  scoreLabels :: "string list"
  pointsToWinPeriod :: "nat option"
  canTie :: bool

record MatchState =
  homeScore :: nat
  awayScore :: nat
  homePeriodScores :: "nat list"
  awayPeriodScores :: "nat list"
  currentPeriod :: nat
  status :: MatchStatus

record ScoreActionResult =
  valid :: bool
  newState :: MatchState
  message :: "string option"
  periodEnded :: "bool option"
  matchEnded :: "bool option"
  winnerId :: "WinnerSide option"

text \<open>
  A handler is the base handler over a configuration, or one of the three built-in
  sports, which spread the base handler and override some of its methods. The methods
  call each other through \<open>this\<close>, so an override is seen by \<open>applyScore\<close>.
\<close>

datatype SportHandler =
  BaseSportHandler SportConfig | BasketballHandler | VolleyballHandler | SoccerHandler

definition basketballConfig :: SportConfig where
  "basketballConfig = \<lparr>periods = 4, periodName = ''Quarter'', scoreIncrements = [1, 2, 3],
     scoreLabels = [''Free Throw'', ''2-Point'', ''3-Point''], pointsToWinPeriod = None,
     canTie = False\<rparr>"

definition volleyballConfig :: SportConfig where
  "volleyballConfig = \<lparr>periods = 5, periodName = ''Set'', scoreIncrements = [1],
     scoreLabels = [''Point''], pointsToWinPeriod = Some 25, canTie = False\<rparr>"

definition soccerConfig :: SportConfig where
  "soccerConfig = \<lparr>periods = 2, periodName = ''Half'', scoreIncrements = [1],
     scoreLabels = [''Goal''], pointsToWinPeriod = None, canTie = True\<rparr>"

fun config :: "SportHandler \<Rightarrow> SportConfig" where
  "config (BaseSportHandler c) = c"
| "config BasketballHandler = basketballConfig"
| "config VolleyballHandler = volleyballConfig"
| "config SoccerHandler = soccerConfig"

definition validateAction :: "SportHandler \<Rightarrow> MatchState \<Rightarrow> TeamSide \<Rightarrow> nat \<Rightarrow> bool \<times> string option" where
  "validateAction h state teamSide points =
     (if status state \<noteq> LIVE then (False, Some ''Match is not live'')
      else if points \<notin> set (scoreIncrements (config h)) then (False, Some ''Invalid point value'')
      else (True, None))"

text \<open>\<open>arr[i] ?? 0\<close>: the period bucket, 0 where the array has none.\<close>

definition bucket :: "nat list \<Rightarrow> int \<Rightarrow> nat" where
  "bucket arr i = (case js_index arr i of None \<Rightarrow> 0 | Some v \<Rightarrow> v)"

definition volleyballShouldEndPeriod :: "MatchState \<Rightarrow> bool" where
  "volleyballShouldEndPeriod state =
     (let periodIndex = int (currentPeriod state) - 1;
          homeSetScore = int (bucket (homePeriodScores state) periodIndex);
          awaySetScore = int (bucket (awayPeriodScores state) periodIndex);
          pointsToWin = (if currentPeriod state = 5 then 15 else 25);
          minDiff = 2;
          homeWins = (homeSetScore \<ge> pointsToWin \<and> homeSetScore - awaySetScore \<ge> minDiff);
          awayWins = (awaySetScore \<ge> pointsToWin \<and> awaySetScore - homeSetScore \<ge> minDiff)
      in homeWins \<or> awayWins)"

fun shouldEndPeriod :: "SportHandler \<Rightarrow> MatchState \<Rightarrow> bool" where
  "shouldEndPeriod VolleyballHandler state = volleyballShouldEndPeriod state"
| "shouldEndPeriod _ state = False"

text \<open>The set-counting loop of the volleyball handler, over \<open>i < currentPeriod\<close>.\<close>

definition countSetStep :: "MatchState \<Rightarrow> nat \<Rightarrow> nat \<times> nat \<Rightarrow> nat \<times> nat" where
  "countSetStep state i acc =
     (case acc of (homeSets, awaySets) \<Rightarrow>
        (let homeSetScore = bucket (homePeriodScores state) (int i);
             awaySetScore = bucket (awayPeriodScores state) (int i)
         in if homeSetScore > awaySetScore then (homeSets + 1, awaySets)
            else if awaySetScore > homeSetScore then (homeSets, awaySets + 1)
            else acc))"

definition volleyballShouldEndMatch :: "MatchState \<Rightarrow> bool \<times> WinnerSide option" where
  "volleyballShouldEndMatch state =
     (case fold (countSetStep state) [0..<currentPeriod state] (0, 0) of
        (homeSets, awaySets) \<Rightarrow>
          if homeSets \<ge> 3 then (True, Some Home)
          else if awaySets \<ge> 3 then (True, Some Away)
          else (False, None))"

fun shouldEndMatch :: "SportHandler \<Rightarrow> MatchState \<Rightarrow> bool \<times> WinnerSide option" where
  "shouldEndMatch (BaseSportHandler c) state = (False, None)"
| "shouldEndMatch BasketballHandler state =
     (if currentPeriod state \<ge> 4 \<and> homeScore state \<noteq> awayScore state
      then (False, Some (if homeScore state > awayScore state then Home else Away))
      else (False, None))"
| "shouldEndMatch VolleyballHandler state = volleyballShouldEndMatch state"
| "shouldEndMatch SoccerHandler state =
     (if currentPeriod state \<ge> 2
      then (if homeScore state > awayScore state then (False, Some Home)
            else if awayScore state > homeScore state then (False, Some Away)
            else if canTie soccerConfig then (False, None)
            else (False, None))
      else (False, None))"

text \<open>\<open>while (scores.length <= periodIndex) scores = [...scores, 0]\<close>\<close>

function extendScores :: "nat list \<Rightarrow> int \<Rightarrow> nat list" where
  "extendScores scores periodIndex =
     (if int (length scores) \<le> periodIndex then extendScores (scores @ [0]) periodIndex
      else scores)"
  by pat_completeness auto
termination
  by (relation "measure (\<lambda>(scores, periodIndex). nat (periodIndex + 1 - int (length scores)))") auto

declare extendScores.simps [simp del]

text \<open>
  \<open>const current = scores[periodIndex]; if (current !== undefined) scores[periodIndex] = f(current)\<close>
\<close>

definition updateBucket :: "(nat \<Rightarrow> nat) \<Rightarrow> nat list \<Rightarrow> int \<Rightarrow> nat list" where
  "updateBucket f scores periodIndex =
     (case js_index scores periodIndex of
        None \<Rightarrow> scores
      | Some current \<Rightarrow> scores[nat periodIndex := f current])"

definition applyScore :: "SportHandler \<Rightarrow> MatchState \<Rightarrow> TeamSide \<Rightarrow> nat \<Rightarrow> ScoreActionResult" where
  "applyScore h state teamSide points =
     (case validateAction h state teamSide points of
        (False, msg) \<Rightarrow>
          \<lparr>valid = False, newState = state,
           message = Some (case msg of Some m \<Rightarrow> m | None \<Rightarrow> ''Invalid action''),
           periodEnded = None, matchEnded = None, winnerId = None\<rparr>
      | (True, _) \<Rightarrow>
          (let periodIndex = int (currentPeriod state) - 1;
               padded = state\<lparr>homePeriodScores := extendScores (homePeriodScores state) periodIndex,
                              awayPeriodScores := extendScores (awayPeriodScores state) periodIndex\<rparr>;
               new = (if teamSide = HOME
                      then padded\<lparr>homeScore := homeScore padded + points,
                                   homePeriodScores :=
                                     updateBucket (\<lambda>c. c + points) (homePeriodScores padded) periodIndex\<rparr>
                      else padded\<lparr>awayScore := awayScore padded + points,
                                   awayPeriodScores :=
                                     updateBucket (\<lambda>c. c + points) (awayPeriodScores padded) periodIndex\<rparr>);
               matchResult = shouldEndMatch h new
           in \<lparr>valid = True, newState = new, message = None,
               periodEnded = Some (shouldEndPeriod h new),
               matchEnded = Some (fst matchResult), winnerId = snd matchResult\<rparr>))"

text \<open>\<open>Math.max(0, a - b)\<close>\<close>

definition clampSub :: "nat \<Rightarrow> nat \<Rightarrow> nat" where
  "clampSub a b = nat (max 0 (int a - int b))"

definition undoScore :: "SportHandler \<Rightarrow> MatchState \<Rightarrow> TeamSide \<Rightarrow> nat \<Rightarrow> nat \<Rightarrow> MatchState" where
  "undoScore h state teamSide points period =
     (let periodIndex = int period - 1
      in if teamSide = HOME
         then state\<lparr>homeScore := clampSub (homeScore state) points,
                     homePeriodScores :=
                       updateBucket (\<lambda>c. clampSub c points) (homePeriodScores state) periodIndex\<rparr>
         else state\<lparr>awayScore := clampSub (awayScore state) points,
                     awayPeriodScores :=
                       updateBucket (\<lambda>c. clampSub c points) (awayPeriodScores state) periodIndex\<rparr>)"

definition nextPeriod :: "SportHandler \<Rightarrow> MatchState \<Rightarrow> MatchState" where
  "nextPeriod h state =
     (if currentPeriod state \<ge> periods (config h) then state
      else state\<lparr>currentPeriod := currentPeriod state + 1,
                  homePeriodScores := homePeriodScores state @ [0],
                  awayPeriodScores := awayPeriodScores state @ [0]\<rparr>)"

section \<open>Match lifecycle routes (server/src/routes/matches.ts)\<close>

text \<open>
  The fields of a stored match that the lifecycle routes read or write. Times are
  abstract instants. A route answers with an HTTP error (status code and message) or with
  the match as written back to the store; an error answer writes nothing.
\<close>

record Match =
  matchId :: string
  homeTeamId :: "string option"
  awayTeamId :: "string option"
  matchWinnerId :: "string option"
  matchHomeScore :: nat
  matchAwayScore :: nat
  matchHomePeriodScores :: "nat list"
  matchAwayPeriodScores :: "nat list"
  matchCurrentPeriod :: nat
  matchStatus :: MatchStatus
  startedAt :: "nat option"
  endedAt :: "nat option"

datatype HttpError = HttpError nat string

text \<open>
  What a request meets before the route's own logic: the match found in the store or
  not, the \<open>x-tournament-password\<close> header present or not, and the outcome of the
  password hash comparison.
\<close>

record RouteRequest =
  foundMatch :: "Match option"
  passwordHeader :: "string option"
  passwordMatches :: bool

definition loadAndAuthorise :: "RouteRequest \<Rightarrow> HttpError + Match" where
  "loadAndAuthorise req =
     (case foundMatch req of
        None \<Rightarrow> Inl (HttpError 404 ''Match not found'')
      | Some m \<Rightarrow>
          (case passwordHeader req of
             None \<Rightarrow> Inl (HttpError 401 ''Admin access required'')
           | Some _ \<Rightarrow>
               if \<not> passwordMatches req then Inl (HttpError 401 ''Invalid password'')
               else Inr m))"

definition startRoute :: "RouteRequest \<Rightarrow> nat \<Rightarrow> HttpError + Match" where
  "startRoute req now =
     (case loadAndAuthorise req of
        Inl e \<Rightarrow> Inl e
      | Inr m \<Rightarrow>
          if matchStatus m \<noteq> SCHEDULED \<and> matchStatus m \<noteq> PAUSED
          then Inl (HttpError 400 ''Match cannot be started'')
          else Inr (m\<lparr>matchStatus := LIVE,
                       startedAt := Some (case startedAt m of Some t \<Rightarrow> t | None \<Rightarrow> now)\<rparr>))"

definition pauseRoute :: "RouteRequest \<Rightarrow> HttpError + Match" where
  "pauseRoute req =
     (case loadAndAuthorise req of
        Inl e \<Rightarrow> Inl e
      | Inr m \<Rightarrow>
          if matchStatus m \<noteq> LIVE then Inl (HttpError 400 ''Match is not live'')
          else Inr (m\<lparr>matchStatus := PAUSED\<rparr>))"

definition endRoute :: "RouteRequest \<Rightarrow> nat \<Rightarrow> HttpError + Match" where
  "endRoute req now =
     (case loadAndAuthorise req of
        Inl e \<Rightarrow> Inl e
      | Inr m \<Rightarrow>
          (let winner = (if matchHomeScore m > matchAwayScore m then homeTeamId m
                         else if matchAwayScore m > matchHomeScore m then awayTeamId m
                         else None)
           in Inr (m\<lparr>matchStatus := COMPLETED, matchWinnerId := winner, endedAt := Some now\<rparr>)))"

text \<open>\<open>sportPeriods\<close> is \<open>match.tournament.sport.periods\<close>.\<close>

definition nextPeriodRoute :: "RouteRequest \<Rightarrow> nat \<Rightarrow> HttpError + Match" where
  "nextPeriodRoute req sportPeriods =
     (case loadAndAuthorise req of
        Inl e \<Rightarrow> Inl e
      | Inr m \<Rightarrow>
          if matchCurrentPeriod m \<ge> sportPeriods
          then Inl (HttpError 400 ''Already at final period'')
          else Inr (m\<lparr>matchCurrentPeriod := matchCurrentPeriod m + 1,
                       matchHomePeriodScores := matchHomePeriodScores m @ [0],
                       matchAwayPeriodScores := matchAwayPeriodScores m @ [0]\<rparr>))"

section \<open>Notions used to state the properties\<close>

text \<open>
  Winning a period, as the specification words it: the side's bucket of that period has
  reached the period's point target (25, and 15 in period 5) and leads the other side's
  bucket by at least 2. \<open>periodsWon\<close> counts the periods so won among the first \<open>n\<close>;
  a period still in progress is won by nobody.
\<close>

definition periodWonBy :: "nat \<Rightarrow> nat \<Rightarrow> nat \<Rightarrow> bool" where
  "periodWonBy period mine theirs \<longleftrightarrow>
     (if period = 5 then 15 else 25) \<le> mine \<and> theirs + 2 \<le> mine"

definition periodsWon :: "nat list \<Rightarrow> nat list \<Rightarrow> nat \<Rightarrow> nat" where
  "periodsWon mine theirs n =
     length (filter (\<lambda>i. periodWonBy (i + 1) (bucket mine (int i)) (bucket theirs (int i)))
                    [0..<n])"

text \<open>
  A run of \<open>applyScore\<close> calls, each on the state the previous one returned. It fails as
  soon as one call is not valid; otherwise it returns the last state and, for each call,
  the side, the points and the period at the time of the call (what the score route
  records in the event log).
\<close>

fun applyScores ::
  "SportHandler \<Rightarrow> MatchState \<Rightarrow> (TeamSide \<times> nat) list
     \<Rightarrow> (MatchState \<times> (TeamSide \<times> nat \<times> nat) list) option" where
  "applyScores h s [] = Some (s, [])"
| "applyScores h s ((side, p) # rest) =
     (let r = applyScore h s side p
      in if valid r
         then (case applyScores h (newState r) rest of
                 None \<Rightarrow> None
               | Some (s', evs) \<Rightarrow> Some (s', (side, p, currentPeriod s) # evs))
         else None)"

text \<open>A run of \<open>undoScore\<close> calls over recorded events, first event first.\<close>

fun undoScores ::
  "SportHandler \<Rightarrow> MatchState \<Rightarrow> (TeamSide \<times> nat \<times> nat) list \<Rightarrow> MatchState" where
  "undoScores h s [] = s"
| "undoScores h s ((side, p, period) # rest) = undoScores h (undoScore h s side p period) rest"

definition scoreInvariant :: "MatchState \<Rightarrow> bool" where
  "scoreInvariant s \<longleftrightarrow>
     homeScore s = sum_list (homePeriodScores s) \<and> awayScore s = sum_list (awayPeriodScores s)"

definition coversCurrentPeriod :: "MatchState \<Rightarrow> bool" where
  "coversCurrentPeriod s \<longleftrightarrow>
     currentPeriod s \<le> length (homePeriodScores s) \<and>
     currentPeriod s \<le> length (awayPeriodScores s)"

text \<open>A completed match, and a request by an administrator that finds a given match.\<close>

definition completedMatch :: Match where
  "completedMatch =
     \<lparr>matchId = ''m1'', homeTeamId = Some ''a'', awayTeamId = Some ''b'',
      matchWinnerId = Some ''a'', matchHomeScore = 3, matchAwayScore = 1,
      matchHomePeriodScores = [3], matchAwayPeriodScores = [1], matchCurrentPeriod = 1,
      matchStatus = COMPLETED, startedAt = Some 10, endedAt = Some 20\<rparr>"

definition adminRequest :: "Match \<Rightarrow> RouteRequest" where
  "adminRequest m = \<lparr>foundMatch = Some m, passwordHeader = Some ''secret'', passwordMatches = True\<rparr>"

text \<open>
  The seeding order as the specification gives it, indexed by the number \<open>k\<close> of
  first-round matches: \<open>seed(1) = [0, 1]\<close>, and \<open>seed(2k)\<close> emits each entry \<open>s\<close> of
  \<open>seed(k)\<close> followed by \<open>bracketSize - 1 - s\<close>, the bracket of \<open>seed(2k)\<close> having
  \<open>4k\<close> slots. It is compared with \<open>generateSeededBracket\<close> below.
\<close>

fun seedOrder :: "nat \<Rightarrow> int list" where
  "seedOrder k = (if k \<le> 1 then [0, 1]
                  else concat (map (\<lambda>s. [s, int (2 * k) - 1 - s]) (seedOrder (k div 2))))"

declare seedOrder.simps [simp del]

text \<open>A bracket slot holds a team when its seed position is below the team count.\<close>

definition teamInSlot :: "nat \<Rightarrow> int \<Rightarrow> int option" where
  "teamInSlot teamCount p = (if p < int teamCount then Some p else None)"

subsection \<open>Notions for the round-robin schedule\<close>

text \<open>
  The pairings of one round, by position: position \<open>m\<close> with position
  \<open>length - 1 - m\<close>, for the first half of the positions.
\<close>

definition roundPairs :: "int list \<Rightarrow> (int \<times> int) list" where
  "roundPairs tw = map (\<lambda>m. (tw ! m, tw ! (length tw - 1 - m))) [0..<length tw div 2]"

text \<open>
  A pairing is kept when neither side is the placeholder \<open>-1\<close>.
\<close>

definition realPair :: "int \<times> int \<Rightarrow> bool" where
  "realPair p \<longleftrightarrow> fst p \<noteq> -1 \<and> snd p \<noteq> -1"

text \<open>
  The fields of a generated match that the schedule properties speak about.
\<close>

definition matchCore :: "GeneratedMatch \<Rightarrow> int option \<times> int option \<times> nat" where
  "matchCore m = (homeTeamIndex m, awayTeamIndex m, round m)"

text \<open>
  The kept pairings of round \<open>r\<close> (counted from 0), as home, away and round number.
\<close>

definition roundChunk :: "nat \<Rightarrow> int list \<Rightarrow> (int option \<times> int option \<times> nat) list" where
  "roundChunk r tw = map (\<lambda>p. (Some (fst p), Some (snd p), r + 1)) (filter realPair (roundPairs tw))"

text \<open>
  The position in the initial array of the entry found at position \<open>i\<close> after \<open>r\<close>
  rotations of an array of \<open>M + 1\<close> entries.
\<close>

definition rrPos :: "nat \<Rightarrow> nat \<Rightarrow> nat \<Rightarrow> int" where
  "rrPos M r i = (if i = 0 then 0 else (int i - 1 - int r) mod int M + 1)"

text \<open>
  A number shared by all pairings of one round: the sum of the two initial positions,
  counted from 1 and modulo \<open>M\<close>, the fixed position 0 standing for its partner.
\<close>

definition rrSig :: "nat \<Rightarrow> int \<Rightarrow> int \<Rightarrow> int" where
  "rrSig M a b =
     (if a = 0 then 2 * (b - 1) else if b = 0 then 2 * (a - 1) else (a - 1) + (b - 1)) mod int M"

text \<open>
  All pairings of all rounds, placeholder included.
\<close>

definition allPairs :: "int list \<Rightarrow> (int \<times> int) list" where
  "allPairs xs = concat (map (\<lambda>r. roundPairs ((rotateTeams ^^ r) xs)) [0..<length xs - 1])"

text \<open>
  A pairing as an unordered pair.
\<close>

definition pairSet :: "int \<times> int \<Rightarrow> int set" where
  "pairSet p = {fst p, snd p}"

text \<open>
  The initial array \<open>teamsWithBye\<close> of \<open>generateRoundRobin\<close>.
\<close>

definition teamsWithByeOf :: "nat \<Rightarrow> int list" where
  "teamsWithByeOf teamCount =
     (if teamCount mod 2 = 1 then map int [0..<teamCount] @ [-1] else map int [0..<teamCount])"

section \<open>Degenerate round robins\<close>

text \<open>
  C10. For \<open>teamCount = 0\<close> and \<open>teamCount = 1\<close>, \<open>generateRoundRobin\<close> returns (the
  function has no failing branch) an empty match list and an empty group list.
\<close>

theorem generateRoundRobin_degenerate:
  "generateRoundRobin 0 = \<lparr>groups = [], matches = []\<rparr> \<and>
   generateRoundRobin 1 = \<lparr>groups = [], matches = []\<rparr>"
  by code_simp

theorem generateRoundRobin_degenerate_witness:
  "matches (generateRoundRobin 1) = [] \<and> groups (generateRoundRobin 0) = []"
  using generateRoundRobin_degenerate by simp

section \<open>The volleyball handler\<close>

text \<open>
  C6. The claim: for the volleyball handler, \<open>shouldEndMatch\<close> reports the match ended,
  with the side as winner, exactly when a side has won strictly more than half of the
  configured periods (3 of 5). The handler departs from it: its loop counts every one of
  the first \<open>currentPeriod\<close> buckets in which a side is ahead, the period in progress
  included. With two sets won by home (25 to 20 twice) and the third set at 0 to 0, one
  point for home makes \<open>applyScore\<close> report the match ended and home the winner, while
  home has won two periods, which is not more than half of five.
\<close>

theorem volleyball_match_ends_on_unfinished_set:
  "newState (applyScore VolleyballHandler
      \<lparr>homeScore = 50, awayScore = 40, homePeriodScores = [25, 25, 0],
       awayPeriodScores = [20, 20, 0], currentPeriod = 3, status = LIVE\<rparr> HOME 1)
     = \<lparr>homeScore = 51, awayScore = 40, homePeriodScores = [25, 25, 1],
        awayPeriodScores = [20, 20, 0], currentPeriod = 3, status = LIVE\<rparr> \<and>
   matchEnded (applyScore VolleyballHandler
      \<lparr>homeScore = 50, awayScore = 40, homePeriodScores = [25, 25, 0],
       awayPeriodScores = [20, 20, 0], currentPeriod = 3, status = LIVE\<rparr> HOME 1) = Some True \<and>
   shouldEndMatch VolleyballHandler
      \<lparr>homeScore = 51, awayScore = 40, homePeriodScores = [25, 25, 1],
       awayPeriodScores = [20, 20, 0], currentPeriod = 3, status = LIVE\<rparr> = (True, Some Home) \<and>
   periodsWon [25, 25, 1] [20, 20, 0] 3 = 2 \<and>
   periodsWon [20, 20, 0] [25, 25, 1] 3 = 0 \<and>
   \<not> periods (config VolleyballHandler) < 2 * periodsWon [25, 25, 1] [20, 20, 0] 3"
  by code_simp

text \<open>
  C7. For the volleyball handler, \<open>shouldEndPeriod\<close> holds exactly when one side's bucket
  of the current period has reached the target (25, and 15 in period 5) and leads the
  other side's bucket by at least 2.
\<close>

theorem volleyball_shouldEndPeriod_iff:
  "shouldEndPeriod VolleyballHandler s \<longleftrightarrow>
     (let target = (if currentPeriod s = 5 then 15 else 25);
          h = bucket (homePeriodScores s) (int (currentPeriod s) - 1);
          a = bucket (awayPeriodScores s) (int (currentPeriod s) - 1)
      in (target \<le> h \<and> a + 2 \<le> h) \<or> (target \<le> a \<and> h + 2 \<le> a))"
  by (auto simp: volleyballShouldEndPeriod_def Let_def)

text \<open>Home at 25 with away at 20 in period 1 ends the period.\<close>

theorem volleyball_shouldEndPeriod_iff_witness:
  "shouldEndPeriod VolleyballHandler
     \<lparr>homeScore = 25, awayScore = 20, homePeriodScores = [25],
      awayPeriodScores = [20], currentPeriod = 1, status = LIVE\<rparr>"
  using volleyball_shouldEndPeriod_iff
    [of "\<lparr>homeScore = 25, awayScore = 20, homePeriodScores = [25],
          awayPeriodScores = [20], currentPeriod = 1, status = LIVE\<rparr>"]
  by (simp add: bucket_def js_index_def)

section \<open>Concrete brackets\<close>

text \<open>
  C8. \<open>generateGroupKnockout 8 2 2\<close> returns two groups of four team indices, with
  indices 0 and 1 in different groups, twelve group-stage matches, and after them three
  knockout matches: two semifinals and a final.
\<close>

theorem generateGroupKnockout_8_2_2:
  "(case generateGroupKnockout 8 2 2 of
      None \<Rightarrow> False
    | Some t \<Rightarrow>
        map teamIndices (groups t) = [[0, 3, 4, 7], [1, 2, 5, 6]] \<and>
        length (filter (\<lambda>m. stage m = GROUP) (matches t)) = 12 \<and>
        map stage (take 12 (matches t)) = replicate 12 GROUP \<and>
        map stage (drop 12 (matches t)) = [SEMIFINAL, SEMIFINAL, FINAL])"
  by code_simp

theorem generateGroupKnockout_8_2_2_witness:
  "generateGroupKnockout 8 2 2 \<noteq> None"
  using generateGroupKnockout_8_2_2 by (auto split: option.splits)

text \<open>
  C5, as amended. \<open>generateSingleElimination 5\<close> has exactly three round-1 matches with
  exactly one team index, and their team indices are 0, 1 and 2, one each.
\<close>

theorem single_elimination_5_byes:
  "(case generateSingleElimination 5 of
      None \<Rightarrow> False
    | Some t \<Rightarrow>
        map (\<lambda>m. (homeTeamIndex m, awayTeamIndex m))
            (filter (\<lambda>m. round m = 1 \<and> (homeTeamIndex m = None) \<noteq> (awayTeamIndex m = None))
                    (matches t))
        = [(Some 0, None), (Some 1, None), (Some 2, None)])"
  by code_simp

theorem single_elimination_5_byes_witness:
  "generateSingleElimination 5 \<noteq> None"
  using single_elimination_5_byes by (auto split: option.splits)

text \<open>
  The claim as stated fails: it is not the case that the three such matches all have
  their team index in \<open>{0, 1}\<close> (the fourth round-1 match holds team index 2 alone).
\<close>

theorem single_elimination_5_byes_counterexample:
  "\<not> (case generateSingleElimination 5 of
        None \<Rightarrow> False
      | Some t \<Rightarrow>
          (let byes = filter (\<lambda>m. round m = 1 \<and>
                               (homeTeamIndex m = None) \<noteq> (awayTeamIndex m = None)) (matches t)
           in length byes = 3 \<and>
              list_all (\<lambda>m. (case homeTeamIndex m of Some i \<Rightarrow> i | None \<Rightarrow> the (awayTeamIndex m))
                              \<in> {0, 1}) byes))"
  by code_simp

section \<open>Score conservation and the score invariant\<close>

lemma extendScores_eq:
  "extendScores scores i = scores @ replicate (nat (i + 1) - length scores) 0"
proof (induction scores i rule: extendScores.induct)
  case (1 scores i)
  show ?case
  proof (cases "int (length scores) \<le> i")
    case True
    then have "nat (i + 1) - length scores = Suc (nat (i + 1) - length (scores @ [0]))"
      by simp
    with True 1 show ?thesis
      by (subst extendScores.simps) (simp add: replicate_app_Cons_same)
  next
    case False
    then show ?thesis
      by (subst extendScores.simps) simp
  qed
qed

lemma extendScores_covered:
  "int (length scores) > i \<Longrightarrow> extendScores scores i = scores"
  by (simp add: extendScores_eq)

lemma clampSub_add [simp]: "clampSub (a + p) p = a"
  by (simp add: clampSub_def)

lemma updateBucket_undo:
  "updateBucket (\<lambda>c. clampSub c p) (updateBucket (\<lambda>c. c + p) xs i) i = xs"
  by (auto simp: updateBucket_def js_index_def split: option.splits)

lemma applyScore_valid_iff:
  "valid (applyScore h s side p) \<longleftrightarrow> status s = LIVE \<and> p \<in> set (scoreIncrements (config h))"
  by (simp add: applyScore_def validateAction_def Let_def)

lemma applyScore_newState:
  assumes "valid (applyScore h s side p)"
  shows "newState (applyScore h s side p) =
     (let i = int (currentPeriod s) - 1;
          padded = s\<lparr>homePeriodScores := extendScores (homePeriodScores s) i,
                     awayPeriodScores := extendScores (awayPeriodScores s) i\<rparr>
      in if side = HOME
         then padded\<lparr>homeScore := homeScore s + p,
                     homePeriodScores := updateBucket (\<lambda>c. c + p) (homePeriodScores padded) i\<rparr>
         else padded\<lparr>awayScore := awayScore s + p,
                     awayPeriodScores := updateBucket (\<lambda>c. c + p) (awayPeriodScores padded) i\<rparr>)"
  using assms by (simp add: applyScore_def validateAction_def Let_def split: if_splits)

lemma apply_then_undo:
  assumes "valid (applyScore h s side p)" and "coversCurrentPeriod s"
  shows "undoScore h (newState (applyScore h s side p)) side p (currentPeriod s) = s"
proof -
  have "extendScores (homePeriodScores s) (int (currentPeriod s) - 1) = homePeriodScores s"
       "extendScores (awayPeriodScores s) (int (currentPeriod s) - 1) = awayPeriodScores s"
    using assms(2) by (auto simp: coversCurrentPeriod_def intro!: extendScores_covered)
  then show ?thesis
    by (simp add: applyScore_newState [OF assms(1)] undoScore_def Let_def updateBucket_undo)
qed

lemma applyScore_keeps_cover:
  assumes "valid (applyScore h s side p)" and "coversCurrentPeriod s"
  shows "coversCurrentPeriod (newState (applyScore h s side p))"
  using assms(2)
  by (auto simp: applyScore_newState [OF assms(1)] Let_def coversCurrentPeriod_def
      extendScores_eq updateBucket_def split: option.splits)

lemma undoScores_append:
  "undoScores h s (us @ vs) = undoScores h (undoScores h s us) vs"
  by (induction us arbitrary: s) auto

text \<open>
  C2, as amended. From a match state whose two period-score arrays have at least
  \<open>currentPeriod\<close> entries, any run of successful \<open>applyScore\<close> calls followed by
  \<open>undoScore\<close> with the same side, points and period, in reverse order, returns the
  initial state: totals, period arrays and all.
\<close>

theorem score_conservation:
  assumes "applyScores h s acts = Some (s', evs)" and "coversCurrentPeriod s"
  shows "undoScores h s' (rev evs) = s"
  using assms
proof (induction acts arbitrary: s s' evs)
  case Nil
  then show ?case by simp
next
  case (Cons a acts)
  obtain side p where a: "a = (side, p)" by (cases a)
  let ?r = "applyScore h s side p"
  from Cons.prems(1) a have v: "valid ?r"
    by (auto simp: Let_def split: if_splits)
  with Cons.prems(1) a obtain evs' where
    rest: "applyScores h (newState ?r) acts = Some (s', evs')" and
    evs: "evs = (side, p, currentPeriod s) # evs'"
    by (auto simp: Let_def split: option.splits)
  have "undoScores h s' (rev evs') = newState ?r"
    using Cons.IH [OF rest] applyScore_keeps_cover [OF v Cons.prems(2)] .
  then show ?case
    by (simp add: evs undoScores_append apply_then_undo [OF v Cons.prems(2)])
qed

theorem score_conservation_witness:
  "undoScores BasketballHandler
      \<lparr>homeScore = 5, awayScore = 1, homePeriodScores = [5], awayPeriodScores = [1],
       currentPeriod = 1, status = LIVE\<rparr> (rev [(HOME, 2, 1), (AWAY, 1, 1), (HOME, 3, 1)])
     = \<lparr>homeScore = 0, awayScore = 0, homePeriodScores = [0], awayPeriodScores = [0],
        currentPeriod = 1, status = LIVE\<rparr>"
proof -
  have a: "applyScores BasketballHandler
      \<lparr>homeScore = 0, awayScore = 0, homePeriodScores = [0], awayPeriodScores = [0],
       currentPeriod = 1, status = LIVE\<rparr> [(HOME, 2), (AWAY, 1), (HOME, 3)]
     = Some (\<lparr>homeScore = 5, awayScore = 1, homePeriodScores = [5], awayPeriodScores = [1],
       currentPeriod = 1, status = LIVE\<rparr>, [(HOME, 2, 1), (AWAY, 1, 1), (HOME, 3, 1)])"
    by (simp add: applyScore_def validateAction_def basketballConfig_def Let_def extendScores_eq
      updateBucket_def js_index_def)
  have c: "coversCurrentPeriod \<lparr>homeScore = 0, awayScore = 0, homePeriodScores = [0],
       awayPeriodScores = [0], currentPeriod = 1, status = LIVE\<rparr>"
    by (simp add: coversCurrentPeriod_def)
  show ?thesis using score_conservation [OF a c] .
qed

text \<open>
  The claim as stated fails on a freshly created match, whose period arrays are empty:
  one successful \<open>applyScore\<close> and its \<open>undoScore\<close> leave a zero in both arrays.
\<close>

theorem score_conservation_counterexample:
  "applyScores BasketballHandler
      \<lparr>homeScore = 0, awayScore = 0, homePeriodScores = [], awayPeriodScores = [],
       currentPeriod = 1, status = LIVE\<rparr> [(HOME, 2)]
     = Some (\<lparr>homeScore = 2, awayScore = 0, homePeriodScores = [2], awayPeriodScores = [0],
              currentPeriod = 1, status = LIVE\<rparr>, [(HOME, 2, 1)]) \<and>
   undoScores BasketballHandler
      \<lparr>homeScore = 2, awayScore = 0, homePeriodScores = [2], awayPeriodScores = [0],
       currentPeriod = 1, status = LIVE\<rparr> (rev [(HOME, 2, 1)])
     = \<lparr>homeScore = 0, awayScore = 0, homePeriodScores = [0], awayPeriodScores = [0],
        currentPeriod = 1, status = LIVE\<rparr> \<and>
   \<lparr>homeScore = 0, awayScore = 0, homePeriodScores = [0], awayPeriodScores = [0],
        currentPeriod = 1, status = LIVE\<rparr>
     \<noteq> \<lparr>homeScore = 0, awayScore = 0, homePeriodScores = [], awayPeriodScores = [],
       currentPeriod = 1, status = LIVE\<rparr>"
  by (simp add: applyScore_def validateAction_def basketballConfig_def Let_def extendScores_eq
      updateBucket_def js_index_def undoScore_def clampSub_def)

lemma sum_list_updateBucket:
  "0 \<le> i \<Longrightarrow> i < int (length xs) \<Longrightarrow>
   sum_list (updateBucket (\<lambda>c. c + p) xs i) = sum_list xs + p"
  by (simp add: updateBucket_def js_index_def sum_list_update)

lemma sum_list_extendScores [simp]: "sum_list (extendScores xs i) = sum_list xs"
  by (simp add: extendScores_eq)

lemma length_extendScores: "0 \<le> i \<Longrightarrow> i < int (length (extendScores xs i))"
  by (simp add: extendScores_eq)

text \<open>
  C9. For every match state (its current period at least 1, as the data model has it) in
  which each side's total equals the sum of that side's period scores, the state returned
  by a successful \<open>applyScore\<close> and the state returned by \<open>nextPeriod\<close> satisfy the same
  equality for both sides.
\<close>

theorem total_is_sum_of_periods:
  assumes "scoreInvariant s"
  shows "(1 \<le> currentPeriod s \<and> valid (applyScore h s side p)
            \<longrightarrow> scoreInvariant (newState (applyScore h s side p))) \<and>
         scoreInvariant (nextPeriod h s)"
proof (intro conjI impI)
  show "scoreInvariant (nextPeriod h s)"
    using assms by (simp add: nextPeriod_def scoreInvariant_def)
next
  assume a: "1 \<le> currentPeriod s \<and> valid (applyScore h s side p)"
  then have v: "valid (applyScore h s side p)" by simp
  have i: "0 \<le> int (currentPeriod s) - 1" using a by simp
  show "scoreInvariant (newState (applyScore h s side p))"
    using assms
    by (simp add: applyScore_newState [OF v] Let_def scoreInvariant_def
        sum_list_updateBucket [OF i length_extendScores [OF i]])
qed

theorem total_is_sum_of_periods_witness:
  "scoreInvariant (newState (applyScore BasketballHandler
      \<lparr>homeScore = 7, awayScore = 4, homePeriodScores = [5, 2], awayPeriodScores = [4],
       currentPeriod = 2, status = LIVE\<rparr> AWAY 3)) \<and>
   scoreInvariant (nextPeriod BasketballHandler
      \<lparr>homeScore = 7, awayScore = 4, homePeriodScores = [5, 2], awayPeriodScores = [4],
       currentPeriod = 2, status = LIVE\<rparr>)"
proof -
  let ?s = "\<lparr>homeScore = 7, awayScore = 4, homePeriodScores = [5, 2], awayPeriodScores = [4],
       currentPeriod = 2, status = LIVE\<rparr>"
  have inv: "scoreInvariant ?s" by (simp add: scoreInvariant_def)
  have pre: "1 \<le> currentPeriod ?s \<and> valid (applyScore BasketballHandler ?s AWAY 3)"
    by (simp add: applyScore_valid_iff basketballConfig_def)
  show ?thesis
    using total_is_sum_of_periods [OF inv, of BasketballHandler AWAY 3] pre by blast
qed

section \<open>Transitions of a completed match\<close>

text \<open>
  C4, as amended. On a match whose status is COMPLETED, the start and the pause
  operation fail with an illegal-transition error (400) and write nothing; the
  advance-period operation does not look at the status: it fails (400) when the match is
  at the sport's last period and otherwise advances the period. The end operation
  succeeds from every status.
\<close>

theorem completed_transitions:
  assumes "loadAndAuthorise req = Inr m"
  shows "(matchStatus m = COMPLETED \<longrightarrow>
            startRoute req now = Inl (HttpError 400 ''Match cannot be started'') \<and>
            pauseRoute req = Inl (HttpError 400 ''Match is not live'') \<and>
            nextPeriodRoute req sportPeriods =
              (if matchCurrentPeriod m \<ge> sportPeriods
               then Inl (HttpError 400 ''Already at final period'')
               else Inr (m\<lparr>matchCurrentPeriod := matchCurrentPeriod m + 1,
                            matchHomePeriodScores := matchHomePeriodScores m @ [0],
                            matchAwayPeriodScores := matchAwayPeriodScores m @ [0]\<rparr>))) \<and>
         (\<exists>m'. endRoute req now = Inr m' \<and> matchStatus m' = COMPLETED \<and> endedAt m' = Some now)"
  using assms
  by (auto simp: startRoute_def pauseRoute_def nextPeriodRoute_def endRoute_def Let_def)

theorem completed_transitions_witness:
  "startRoute (adminRequest completedMatch) 30 = Inl (HttpError 400 ''Match cannot be started'') \<and>
   pauseRoute (adminRequest completedMatch) = Inl (HttpError 400 ''Match is not live'') \<and>
   (\<exists>m'. endRoute (adminRequest completedMatch) 30 = Inr m' \<and> matchStatus m' = COMPLETED \<and>
         endedAt m' = Some 30)"
proof -
  have a: "loadAndAuthorise (adminRequest completedMatch) = Inr completedMatch"
    by (simp add: adminRequest_def loadAndAuthorise_def)
  have c: "matchStatus completedMatch = COMPLETED"
    by (simp add: completedMatch_def)
  show ?thesis
    using completed_transitions [OF a, of 30 4] c by blast
qed

text \<open>
  The claim as stated fails: the advance-period operation on a COMPLETED match in
  period 1 of a four-period sport succeeds and moves the match to period 2.
\<close>

theorem completed_next_period_counterexample:
  "matchStatus completedMatch = COMPLETED \<and>
   nextPeriodRoute (adminRequest completedMatch) 4 =
     Inr (completedMatch\<lparr>matchCurrentPeriod := 2, matchHomePeriodScores := [3, 0],
                          matchAwayPeriodScores := [1, 0]\<rparr>)"
  by (simp add: completedMatch_def adminRequest_def nextPeriodRoute_def loadAndAuthorise_def)

section \<open>Seeding of the single-elimination bracket\<close>

lemma seedOrder_1 [simp]: "seedOrder (Suc 0) = [0, 1]"
  by (simp add: seedOrder.simps)

lemma seedOrder_double:
  "1 \<le> k \<Longrightarrow> seedOrder (2 * k) = concat (map (\<lambda>s. [s, int (4 * k) - 1 - s]) (seedOrder k))"
  by (subst seedOrder.simps) simp

lemma length_concat_pairs [simp]: "length (concat (map (\<lambda>s. [s, f s]) xs)) = 2 * length xs"
  by (induction xs) auto

lemma nth_concat_pairs:
  "i < length xs \<Longrightarrow> concat (map (\<lambda>s. [s, f s]) xs) ! (2 * i) = xs ! i"
proof (induction xs arbitrary: i)
  case Nil
  then show ?case by simp
next
  case (Cons x xs)
  then show ?case by (cases i) auto
qed

lemma length_seedOrder: "length (seedOrder (2 ^ j)) = 2 * 2 ^ j"
  by (induction j) (simp_all add: seedOrder_double)

lemma seedOrder_first: "seedOrder (2 ^ j) ! 0 = 0"
proof (induction j)
  case 0
  then show ?case by simp
next
  case (Suc j)
  have "0 < length (seedOrder (2 ^ j))" by (simp add: length_seedOrder)
  from nth_concat_pairs [OF this] Suc show ?case
    by (simp add: seedOrder_double)
qed

lemma seedOrder_half: "seedOrder (2 ^ j) ! (2 ^ j) = 1"
proof (induction j)
  case 0
  then show ?case by simp
next
  case (Suc j)
  have "(2::nat) ^ j < length (seedOrder (2 ^ j))" by (simp add: length_seedOrder)
  from nth_concat_pairs [OF this] Suc show ?case
    by (simp add: seedOrder_double)
qed

lemma generateSeededBracket_refines:
  "generateSeededBracket (2 * 2 ^ j) = Some (seedOrder (2 ^ j))"
proof (induction j)
  case 0
  then show ?case by (simp add: generateSeededBracket.simps)
next
  case (Suc j)
  have "(2 * (2 * 2 ^ j)) div 2 = (2::nat) * 2 ^ j"
    by simp
  then show ?case
    using Suc by (subst generateSeededBracket.simps) (simp add: seedOrder_double)
qed

lemma ceil_log2_pow: "ceil_log2 (2 ^ e) = e"
proof (induction e)
  case 0
  then show ?case by (simp add: ceil_log2.simps)
next
  case (Suc e)
  have "((2::nat) * 2 ^ e + 1) div 2 = 2 ^ e" by simp
  moreover have "\<not> (2::nat) * 2 ^ e \<le> Suc 0"
  proof -
    have "(1::nat) \<le> 2 ^ e" by simp
    then show ?thesis by linarith
  qed
  ultimately show ?case
    using Suc by (subst ceil_log2.simps) simp
qed

lemma ceil_log2_ge2: "3 \<le> n \<Longrightarrow> 2 \<le> ceil_log2 n"
  by (subst ceil_log2.simps, simp, subst ceil_log2.simps, simp)

lemma ceil_log2_bound: "n \<le> 2 ^ ceil_log2 n"
proof (induction n rule: ceil_log2.induct)
  case (1 n)
  show ?case
  proof (cases "n \<le> 1")
    case True
    then show ?thesis by (subst ceil_log2.simps) simp
  next
    case False
    with 1 have "(n + 1) div 2 \<le> 2 ^ ceil_log2 ((n + 1) div 2)" by simp
    then have "n \<le> 2 * 2 ^ ceil_log2 ((n + 1) div 2)" by linarith
    with False show ?thesis by (subst ceil_log2.simps) simp
  qed
qed


lemma seRounds_later:
  "\<forall>r \<in> set rs. 2 \<le> r \<Longrightarrow>
   \<exists>extra. snd (snd (fold (seRoundStep rounds) rs (k, no, ms))) = ms @ extra \<and>
           (\<forall>m \<in> set extra. 2 \<le> round m)"
proof (induction rs arbitrary: k no ms)
  case Nil
  then show ?case by simp
next
  case (Cons r rs)
  let ?new = "map (\<lambda>i. \<lparr>homeTeamIndex = None, awayTeamIndex = None, round = r,
                          matchNumber = no + i, stage = getStageForRound r rounds,
                          groupIndex = None\<rparr>) [0..<k div 2]"
  from Cons.prems have rs: "\<forall>r \<in> set rs. 2 \<le> r" and r: "2 \<le> r" by simp_all
  from Cons.IH [OF rs, of "k div 2" "no + k div 2" "ms @ ?new"]
  obtain extra where
    e: "snd (snd (fold (seRoundStep rounds) rs (k div 2, no + k div 2, ms @ ?new)))
          = (ms @ ?new) @ extra" and
    e2: "\<forall>m \<in> set extra. 2 \<le> round m"
    by blast
  have "snd (snd (fold (seRoundStep rounds) (r # rs) (k, no, ms))) = ms @ (?new @ extra)"
    using e by (simp add: seRoundStep_def Let_def)
  moreover have "\<forall>m \<in> set (?new @ extra). 2 \<le> round m"
    using e2 r by auto
  ultimately show ?case by blast
qed

lemma firstRoundMatch_fields [simp]:
  "round (firstRoundMatch n r S i) = 1"
  "homeTeamIndex (firstRoundMatch n r S i) =
     (case js_index S (int i * 2) of Some p \<Rightarrow> teamInSlot n p | None \<Rightarrow> None)"
  "awayTeamIndex (firstRoundMatch n r S i) =
     (case js_index S (int i * 2 + 1) of Some p \<Rightarrow> teamInSlot n p | None \<Rightarrow> None)"
  by (simp_all add: firstRoundMatch_def Let_def teamInSlot_def split: option.splits)

lemma single_elimination_first_round:
  assumes "3 \<le> teamCount"
  shows "\<exists>t. generateSingleElimination teamCount = Some t \<and>
           filter (\<lambda>m. round m = 1) (matches t) =
             map (firstRoundMatch teamCount (ceil_log2 teamCount)
                    (seedOrder (2 ^ (ceil_log2 teamCount - 1))))
                 [0..<2 ^ (ceil_log2 teamCount - 1)]"
proof -
  define e where "e = ceil_log2 teamCount - 1"
  have e: "ceil_log2 teamCount = Suc e" "1 \<le> e"
    using ceil_log2_ge2 [OF assms] by (simp_all add: e_def)
  let ?S = "seedOrder (2 ^ e)"
  let ?first = "map (firstRoundMatch teamCount (Suc e) ?S) [0..<2 ^ e]"
  have B: "(2::nat) ^ ceil_log2 teamCount = 2 * 2 ^ e" by (simp add: e)
  have rounds: "ceil_log2 (2 * 2 ^ e) = Suc e"
    using ceil_log2_pow [of "Suc e"] by simp
  obtain extra where
    x: "snd (snd (fold (seRoundStep (Suc e)) [2..<Suc (Suc e)] (2 ^ e, length ?first + 1, ?first)))
          = ?first @ extra" and
    x2: "\<forall>m \<in> set extra. 2 \<le> round m"
  proof -
    have "\<forall>r \<in> set [2..<Suc (Suc e)]. 2 \<le> r" by (auto simp del: upt_Suc)
    from seRounds_later [OF this, of "Suc e" "2 ^ e" "length ?first + 1" ?first] that
    show ?thesis by blast
  qed
  have f1: "filter (\<lambda>m. round m = 1) ?first = ?first"
    by (simp add: filter_map comp_def)
  have f2: "filter (\<lambda>m. round m = 1) extra = []"
    using x2 by (auto simp: filter_empty_conv)
  have "generateSingleElimination teamCount =
          Some \<lparr>groups = [], matches = ?first @ extra\<rparr>"
    using assms x
    by (simp add: generateSingleElimination_def B rounds generateSeededBracket_refines Let_def)
  then show ?thesis
    using f1 f2 by (simp add: e_def [symmetric] e)
qed

text \<open>
  C3. For every team count of at least 3, \<open>generateSingleElimination\<close> returns, and its
  round-1 pairings are read off the specification's recursive seeding order, two
  positions per match, a position at or beyond the team count being an empty side.
  Team 0 is the home side of the first round-1 match and team 1 the home side of the
  first match of the second half of round 1. In a bracket in order (the winners of
  matches \<open>2i\<close> and \<open>2i + 1\<close> of a round meet in match \<open>i\<close> of the next), the winner of
  round-1 match \<open>i\<close> plays round \<open>r\<close> in match \<open>i div 2 ^ (r - 1)\<close>: teams 0 and 1 are in
  different matches in every round before the last.
\<close>

theorem single_elimination_seeding:
  assumes "3 \<le> teamCount"
  shows "\<exists>t. generateSingleElimination teamCount = Some t \<and>
     (let bracketSize = 2 ^ ceil_log2 teamCount;
          seed = seedOrder (bracketSize div 2);
          firstRound = filter (\<lambda>m. round m = 1) (matches t)
      in map (\<lambda>m. (homeTeamIndex m, awayTeamIndex m)) firstRound
           = map (\<lambda>i. (teamInSlot teamCount (seed ! (2 * i)),
                        teamInSlot teamCount (seed ! (2 * i + 1))))
                 [0..<bracketSize div 2]
         \<and> homeTeamIndex (firstRound ! 0) = Some 0
         \<and> homeTeamIndex (firstRound ! (bracketSize div 4)) = Some 1
         \<and> (\<forall>r. 1 \<le> r \<and> r < ceil_log2 teamCount
                \<longrightarrow> (0::nat) div 2 ^ (r - 1) \<noteq> (bracketSize div 4) div 2 ^ (r - 1)))"
proof -
  define e where "e = ceil_log2 teamCount - 1"
  have e: "ceil_log2 teamCount = Suc e" "1 \<le> e"
    using ceil_log2_ge2 [OF assms] by (simp_all add: e_def)
  then obtain e' where e': "e = Suc e'" by (cases e) auto
  let ?S = "seedOrder (2 ^ e)"
  let ?first = "map (firstRoundMatch teamCount (Suc e) ?S) [0..<2 ^ e]"
  from single_elimination_first_round [OF assms] obtain t where
    t: "generateSingleElimination teamCount = Some t" and
    fr: "filter (\<lambda>m. round m = 1) (matches t) = ?first"
    by (auto simp: e e_def [symmetric])
  have len: "length ?S = 2 * 2 ^ e" by (rule length_seedOrder)
  have idx: "js_index ?S (int i * 2) = Some (?S ! (2 * i))"
            "js_index ?S (int i * 2 + 1) = Some (?S ! (2 * i + 1))" if "i < 2 ^ e" for i
  proof -
    have "int i < 2 ^ e" using that by simp
    moreover have "int (length ?S) = 2 * 2 ^ e" by (simp add: len)
    ultimately have "int i * 2 < int (length ?S)" "int i * 2 + 1 < int (length ?S)"
      by linarith+
    then show "js_index ?S (int i * 2) = Some (?S ! (2 * i))"
              "js_index ?S (int i * 2 + 1) = Some (?S ! (2 * i + 1))"
      by (simp_all add: js_index_def nat_mult_distrib nat_add_distrib mult.commute)
  qed
  have pairs: "map (\<lambda>m. (homeTeamIndex m, awayTeamIndex m)) ?first
           = map (\<lambda>i. (teamInSlot teamCount (?S ! (2 * i)),
                        teamInSlot teamCount (?S ! (2 * i + 1)))) [0..<2 ^ e]"
    by (simp add: idx)
  have three: "(0::int) < int teamCount" "(1::int) < int teamCount" using assms by simp_all
  have h0: "homeTeamIndex (?first ! 0) = Some 0"
    using idx(1) [of 0] seedOrder_first [of e] three by (simp add: teamInSlot_def)
  have quarter: "(2::nat) * 2 ^ e div 4 = 2 ^ e'" by (simp add: e')
  have "(2::nat) ^ e' < 2 ^ e" by (simp add: e')
  then have h1: "homeTeamIndex (?first ! (2 ^ e')) = Some 1"
    using idx(1) [of "2 ^ e'"] seedOrder_half [of e] three
    by (simp add: teamInSlot_def e')
  have apart: "(0::nat) div 2 ^ (r - 1) \<noteq> 2 ^ e' div 2 ^ (r - 1)" if "1 \<le> r" "r < Suc e" for r
  proof -
    from that have "r - 1 \<le> e'" by (simp add: e')
    then have "(2::nat) ^ e' div 2 ^ (r - 1) = 2 ^ (e' - (r - 1))"
      by (simp add: power_diff)
    then show ?thesis by simp
  qed
  show ?thesis
    using t fr pairs h0 h1 apart
    by (simp add: Let_def e quarter)
qed

theorem single_elimination_seeding_witness:
  "\<exists>t. generateSingleElimination 6 = Some t \<and>
       map (\<lambda>m. (homeTeamIndex m, awayTeamIndex m)) (filter (\<lambda>m. round m = 1) (matches t))
         = [(Some 0, None), (Some 3, Some 4), (Some 1, None), (Some 2, Some 5)] \<and>
       homeTeamIndex (filter (\<lambda>m. round m = 1) (matches t) ! 0) = Some 0 \<and>
       homeTeamIndex (filter (\<lambda>m. round m = 1) (matches t) ! 2) = Some 1"
proof -
  have c: "ceil_log2 6 = 3" by code_simp
  have s: "seedOrder 4 = [0, 7, 3, 4, 1, 6, 2, 5]" by code_simp
  have u: "[0..<4] = [0, 1, 2, 3]" by code_simp
  have "(3::nat) \<le> 6" by simp
  from single_elimination_seeding [OF this] obtain t where
    t: "generateSingleElimination 6 = Some t" and
    p: "map (\<lambda>m. (homeTeamIndex m, awayTeamIndex m)) (filter (\<lambda>m. round m = 1) (matches t))
          = map (\<lambda>i. (teamInSlot 6 (seedOrder 4 ! (2 * i)), teamInSlot 6 (seedOrder 4 ! (2 * i + 1))))
                [0..<4]" and
    h: "homeTeamIndex (filter (\<lambda>m. round m = 1) (matches t) ! 0) = Some 0"
       "homeTeamIndex (filter (\<lambda>m. round m = 1) (matches t) ! 2) = Some 1"
    by (auto simp: c Let_def)
  have "map (\<lambda>i. (teamInSlot 6 (seedOrder 4 ! (2 * i)), teamInSlot 6 (seedOrder 4 ! (2 * i + 1))))
            [0..<4] = [(Some 0, None), (Some 3, Some 4), (Some 1, None), (Some 2, Some 5)]"
    by (simp add: s u teamInSlot_def)
  with t p h show ?thesis by simp
qed

section \<open>The round-robin schedule\<close>

lemma rrMatchStep_in_range:
  assumes "length tw = n" and "k < n div 2"
  shows "map matchCore (fst (rrMatchStep tw n r k acc)) =
           map matchCore (fst acc) @
           map (\<lambda>p. (Some (fst p), Some (snd p), r + 1))
               (filter realPair [(tw ! k, tw ! (n - 1 - k))])"
proof -
  from assms have k: "k < n" "n - 1 - k < n" by auto
  have i1: "js_index tw (int k) = Some (tw ! k)"
    using k assms(1) by (simp add: js_index_def)
  have "nat (int n - 1 - int k) = n - 1 - k" "0 \<le> int n - 1 - int k"
       "int n - 1 - int k < int (length tw)"
    using k assms(1) by simp_all
  then have i2: "js_index tw (int n - 1 - int k) = Some (tw ! (n - 1 - k))"
    by (simp only: js_index_def simp_thms if_True)
  show ?thesis
    by (cases acc) (simp add: rrMatchStep_def i1 i2 realPair_def matchCore_def)
qed

lemma rr_inner_loop:
  assumes "length tw = n" and "k \<le> n div 2"
  shows "map matchCore (fst (fold (rrMatchStep tw n r) [0..<k] acc)) =
           map matchCore (fst acc) @
           map (\<lambda>p. (Some (fst p), Some (snd p), r + 1))
               (filter realPair (map (\<lambda>m. (tw ! m, tw ! (n - 1 - m))) [0..<k]))"
  using assms(2)
proof (induction k)
  case 0
  then show ?case by simp
next
  case (Suc k)
  then have k: "k < n div 2" and IH: "k \<le> n div 2" by simp_all
  show ?case
    using rrMatchStep_in_range [OF assms(1) k, of r "fold (rrMatchStep tw n r) [0..<k] acc"]
          Suc.IH [OF IH]
    by simp
qed

lemma rrRoundStep_core:
  assumes "length tw = n"
  shows "fst (rrRoundStep n (n div 2) r (tw, acc)) = rotateTeams tw"
    and "map matchCore (fst (snd (rrRoundStep n (n div 2) r (tw, acc)))) =
           map matchCore (fst acc) @ roundChunk r tw"
  using rr_inner_loop [OF assms order_refl, of r acc] assms
  by (simp_all add: rrRoundStep_def roundChunk_def roundPairs_def)

lemma rotateTeams_Cons:
  "ys \<noteq> [] \<Longrightarrow> rotateTeams (x # ys) = x # last ys # butlast ys"
  by (simp add: rotateTeams_def js_index_def)

lemma length_rotateTeams [simp]: "length (rotateTeams xs) = length xs"
  by (cases xs) (auto simp: rotateTeams_def js_index_def)

lemma set_rotateTeams [simp]: "set (rotateTeams xs) = set xs"
proof (cases xs)
  case Nil
  then show ?thesis by (simp add: rotateTeams_def js_index_def)
next
  case (Cons x ys)
  show ?thesis
  proof (cases "ys = []")
    case True
    with Cons show ?thesis by (simp add: rotateTeams_def js_index_def)
  next
    case False
    then have "set ys = insert (last ys) (set (butlast ys))"
      by (metis append_butlast_last_id list.simps(15) rotate1.simps(2) set_rotate1)
    with False Cons show ?thesis by (simp add: rotateTeams_Cons)
  qed
qed

lemma distinct_rotateTeams [simp]: "distinct (rotateTeams xs) = distinct xs"
proof (cases xs)
  case Nil
  then show ?thesis by (simp add: rotateTeams_def js_index_def)
next
  case (Cons x ys)
  show ?thesis
  proof (cases "ys = []")
    case True
    with Cons show ?thesis by (simp add: rotateTeams_def js_index_def)
  next
    case False
    then have ys: "ys = butlast ys @ [last ys]" by simp
    have "distinct ys = (last ys \<notin> set (butlast ys) \<and> distinct (butlast ys))"
      by (subst ys) (simp only: distinct_append, auto)
    moreover have "set ys = insert (last ys) (set (butlast ys))"
      by (subst ys) (simp only: set_append, auto)
    ultimately show ?thesis
      using False Cons by (auto simp: rotateTeams_Cons)
  qed
qed

lemma length_rotate_pow [simp]: "length ((rotateTeams ^^ r) xs) = length xs"
  by (induction r) simp_all

lemma set_rotate_pow [simp]: "set ((rotateTeams ^^ r) xs) = set xs"
  by (induction r) simp_all

lemma distinct_rotate_pow [simp]: "distinct ((rotateTeams ^^ r) xs) = distinct xs"
  by (induction r) simp_all

lemma rr_outer_loop:
  assumes "length tw = n"
  shows "fst (fold (rrRoundStep n (n div 2)) [0..<R] (tw, acc)) = (rotateTeams ^^ R) tw \<and>
         map matchCore (fst (snd (fold (rrRoundStep n (n div 2)) [0..<R] (tw, acc)))) =
           map matchCore (fst acc) @
           concat (map (\<lambda>r. roundChunk r ((rotateTeams ^^ r) tw)) [0..<R])"
proof (induction R)
  case 0
  then show ?case by simp
next
  case (Suc R)
  obtain tw' acc' where st: "fold (rrRoundStep n (n div 2)) [0..<R] (tw, acc) = (tw', acc')"
    by (cases "fold (rrRoundStep n (n div 2)) [0..<R] (tw, acc)")
  from Suc st have tw': "tw' = (rotateTeams ^^ R) tw"
    and acc': "map matchCore (fst acc') = map matchCore (fst acc) @
           concat (map (\<lambda>r. roundChunk r ((rotateTeams ^^ r) tw)) [0..<R])"
    by simp_all
  have len: "length tw' = n" using assms tw' by simp
  show ?case
    using rrRoundStep_core [OF len, of R acc'] tw' acc'
    by (simp add: st)
qed

lemma generateRoundRobin_core:
  "map matchCore (matches (generateRoundRobin teamCount)) =
     (let tw = (if teamCount mod 2 = 1 then map int [0..<teamCount] @ [-1]
                else map int [0..<teamCount])
      in concat (map (\<lambda>r. roundChunk r ((rotateTeams ^^ r) tw)) [0..<length tw - 1]))"
proof -
  define tw where "tw = (if teamCount mod 2 = 1 then map int [0..<teamCount] @ [-1]
                else map int [0..<teamCount])"
  have "map matchCore (matches (generateRoundRobin teamCount)) =
      map matchCore (fst (snd (fold (rrRoundStep (length tw) (length tw div 2))
                                     [0..<length tw - 1] (tw, [], 1))))"
    by (simp add: generateRoundRobin_def Let_def tw_def)
  also have "\<dots> = concat (map (\<lambda>r. roundChunk r ((rotateTeams ^^ r) tw)) [0..<length tw - 1])"
    using rr_outer_loop [OF refl, of tw "length tw - 1" "([], 1)"] by simp
  finally show ?thesis by (simp add: Let_def tw_def)
qed

lemma rrPos_range:
  assumes "1 \<le> M" and "i \<le> M"
  shows "0 \<le> rrPos M r i" and "rrPos M r i \<le> int M" and "(rrPos M r i = 0) = (i = 0)"
proof -
  have "0 \<le> (int i - 1 - int r) mod int M" "(int i - 1 - int r) mod int M < int M"
    using assms(1) by simp_all
  then show "0 \<le> rrPos M r i" "rrPos M r i \<le> int M" "(rrPos M r i = 0) = (i = 0)"
    by (auto simp: rrPos_def)
qed

lemma rrPos_0: "1 \<le> M \<Longrightarrow> i \<le> M \<Longrightarrow> rrPos M 0 i = int i"
  by (auto simp: rrPos_def)

lemma rrPos_compose:
  assumes "1 \<le> M" and "i \<le> M"
  shows "rrPos M r (nat (rrPos M 1 i)) = rrPos M (Suc r) i"
proof (cases "i = 0")
  case True
  then show ?thesis by (simp add: rrPos_def)
next
  case False
  have p: "0 \<le> rrPos M 1 i" "rrPos M 1 i \<noteq> 0"
    using rrPos_range [OF assms, of 1] False by simp_all
  then have "nat (rrPos M 1 i) \<noteq> 0" "int (nat (rrPos M 1 i)) = rrPos M 1 i" by simp_all
  then have "rrPos M r (nat (rrPos M 1 i)) = (rrPos M 1 i - 1 - int r) mod int M + 1"
    by (simp add: rrPos_def)
  also have "rrPos M 1 i - 1 = (int i - 2) mod int M"
    using False by (simp add: rrPos_def)
  also have "((int i - 2) mod int M - int r) mod int M = (int i - 2 - int r) mod int M"
    by (rule mod_diff_left_eq)
  also have "int i - 2 - int r = int i - 1 - int (Suc r)" by simp
  finally show ?thesis using False by (simp add: rrPos_def)
qed

lemma rotateTeams_nth:
  assumes "length xs = Suc M" and "1 \<le> M" and "i \<le> M"
  shows "rotateTeams xs ! i = xs ! nat (rrPos M 1 i)"
proof -
  from assms(1) obtain x ys where xs: "xs = x # ys" and ys: "length ys = M"
    by (cases xs) auto
  with assms(2) have ne: "ys \<noteq> []" by auto
  consider "i = 0" | "i = 1" | "2 \<le> i" by linarith
  then show ?thesis
  proof cases
    case 1
    then show ?thesis by (simp add: xs rotateTeams_Cons [OF ne] rrPos_def)
  next
    case 2
    have "(- 1) mod int M = int M - 1" using assms(2) by (simp add: zmod_minus1)
    then have "nat (rrPos M 1 i) = M" using 2 by (simp add: rrPos_def)
    moreover have "last ys = ys ! (M - 1)" using ne ys by (simp add: last_conv_nth)
    ultimately show ?thesis
      using 2 assms(2) by (simp add: xs rotateTeams_Cons [OF ne])
  next
    case 3
    then have "(int i - 2) mod int M = int i - 2"
      using assms(3) by simp
    then have p: "nat (rrPos M 1 i) = i - 1" using 3 by (simp add: rrPos_def)
    obtain j where j: "i = Suc (Suc j)" using 3 by (metis add_2_eq_Suc le_Suc_ex)
    have "j < length (butlast ys)" using j assms(3) ys by simp
    then have "butlast ys ! j = ys ! j" by (rule nth_butlast)
    moreover have "nat (rrPos M (Suc 0) (Suc (Suc j))) = Suc j" using p j by simp
    ultimately show ?thesis
      by (simp add: xs rotateTeams_Cons [OF ne] j)
  qed
qed

lemma rotate_pow_nth:
  assumes "length xs = Suc M" and "1 \<le> M"
  shows "i \<le> M \<Longrightarrow> (rotateTeams ^^ r) xs ! i = xs ! nat (rrPos M r i)"
proof (induction r arbitrary: i)
  case 0
  then show ?case using assms(2) by (simp add: rrPos_0)
next
  case (Suc r)
  have len: "length ((rotateTeams ^^ r) xs) = Suc M" using assms(1) by simp
  have rng: "nat (rrPos M 1 i) \<le> M"
    using rrPos_range(2) [OF assms(2) Suc.prems, of 1] by simp
  have "(rotateTeams ^^ Suc r) xs ! i = (rotateTeams ^^ r) xs ! nat (rrPos M 1 i)"
    using rotateTeams_nth [OF len assms(2) Suc.prems] by simp
  also have "\<dots> = xs ! nat (rrPos M r (nat (rrPos M 1 i)))"
    by (rule Suc.IH [OF rng])
  finally show ?case
    by (simp only: rrPos_compose [OF assms(2) Suc.prems])
qed

lemma rrSig_sym: "rrSig M a b = rrSig M b a"
  by (simp add: rrSig_def add.commute)

lemma rrSig_round:
  assumes "1 \<le> M" and "2 * m < Suc M"
  shows "rrSig M (rrPos M r m) (rrPos M r (M - m)) = (- 2 * (int r + 1)) mod int M"
proof (cases "m = 0")
  case True
  have "rrSig M (rrPos M r m) (rrPos M r (M - m)) = (2 * ((int M - 1 - int r) mod int M)) mod int M"
    using True assms(1) by (simp add: rrSig_def rrPos_def)
  also have "\<dots> = (2 * (int M - 1 - int r)) mod int M"
    by (rule mod_mult_right_eq)
  also have "2 * (int M - 1 - int r) = - 2 * (int r + 1) + 2 * int M" by simp
  also have "(- 2 * (int r + 1) + 2 * int M) mod int M = (- 2 * (int r + 1)) mod int M"
    by (rule mod_mult_self1)
  finally show ?thesis .
next
  case False
  with assms have m: "m \<le> M" "M - m \<noteq> 0" "M - m \<le> M" by auto
  have a: "rrPos M r m \<noteq> 0" using rrPos_range(3) [OF assms(1) m(1)] False by simp
  have b: "rrPos M r (M - m) \<noteq> 0" using rrPos_range(3) [OF assms(1) m(3)] m(2) by simp
  have "rrSig M (rrPos M r m) (rrPos M r (M - m)) =
          ((int m - 1 - int r) mod int M + (int (M - m) - 1 - int r) mod int M) mod int M"
    using a b False m(2) by (simp add: rrSig_def) (simp add: rrPos_def)
  also have "\<dots> = ((int m - 1 - int r) + (int (M - m) - 1 - int r)) mod int M"
    by (rule mod_add_eq)
  also have "(int m - 1 - int r) + (int (M - m) - 1 - int r) = - 2 * (int r + 1) + 1 * int M"
    using m(1) by (simp add: of_nat_diff)
  also have "(- 2 * (int r + 1) + 1 * int M) mod int M = (- 2 * (int r + 1)) mod int M"
    by (rule mod_mult_self1)
  finally show ?thesis .
qed

lemma rrSig_round_inj:
  assumes "odd M" and "r < M" and "r' < M"
    and "(- 2 * (int r + 1)) mod int M = (- 2 * (int r' + 1)) mod int M"
  shows "r = r'"
proof -
  from assms(4) have "int M dvd (- 2 * (int r + 1)) - (- 2 * (int r' + 1))"
    by (simp only: mod_eq_dvd_iff)
  then have "int M dvd (int r' - int r) * 2"
    by (simp add: algebra_simps)
  moreover have "coprime (int M) 2" using assms(1) by simp
  ultimately have d: "int M dvd int r' - int r"
    by (simp only: coprime_dvd_mult_left_iff)
  have "\<bar>int r' - int r\<bar> < int M" using assms(2,3) by linarith
  with d have "int r' - int r = 0"
    using zdvd_not_zless [of "\<bar>int r' - int r\<bar>" "int M"] by (cases "int r' - int r = 0") auto
  then show ?thesis by simp
qed

lemma round_pair_inj:
  assumes xs: "distinct xs" "length xs = Suc M" and M: "odd M"
    and r: "r < M" "r' < M" and m: "2 * m < Suc M" "2 * m' < Suc M"
    and eq: "{(rotateTeams ^^ r) xs ! m, (rotateTeams ^^ r) xs ! (M - m)} =
             {(rotateTeams ^^ r') xs ! m', (rotateTeams ^^ r') xs ! (M - m')}"
  shows "r = r' \<and> m = m'"
proof -
  from M have M1: "1 \<le> M" by (cases M) auto
  from m have mM: "m \<le> M" "M - m \<le> M" "m' \<le> M" "M - m' \<le> M" by auto
  define a b a' b' where "a = rrPos M r m" and "b = rrPos M r (M - m)"
    and "a' = rrPos M r' m'" and "b' = rrPos M r' (M - m')"
  have nth: "(rotateTeams ^^ r) xs ! m = xs ! nat a" "(rotateTeams ^^ r) xs ! (M - m) = xs ! nat b"
    "(rotateTeams ^^ r') xs ! m' = xs ! nat a'" "(rotateTeams ^^ r') xs ! (M - m') = xs ! nat b'"
    using mM by (simp_all add: rotate_pow_nth [OF xs(2) M1] a_def b_def a'_def b'_def)
  have rng: "0 \<le> a" "a \<le> int M" "0 \<le> b" "b \<le> int M" "0 \<le> a'" "a' \<le> int M" "0 \<le> b'" "b' \<le> int M"
    using mM rrPos_range [OF M1] by (simp_all add: a_def b_def a'_def b'_def)
  have inj: "xs ! nat u = xs ! nat v \<longleftrightarrow> u = v" if "0 \<le> u" "u \<le> int M" "0 \<le> v" "v \<le> int M" for u v
  proof -
    have "nat u < length xs" "nat v < length xs" using that xs(2) by simp_all
    then have "xs ! nat u = xs ! nat v \<longleftrightarrow> nat u = nat v"
      using xs(1) by (simp add: nth_eq_iff_index_eq)
    then show ?thesis using that by (simp add: eq_nat_nat_iff)
  qed
  from eq have "(a = a' \<and> b = b') \<or> (a = b' \<and> b = a')"
    unfolding nth doubleton_eq_iff using rng by (simp add: inj)
  then have "rrSig M a b = rrSig M a' b'"
    using rrSig_sym [of M a' b'] by auto
  then have "(- 2 * (int r + 1)) mod int M = (- 2 * (int r' + 1)) mod int M"
    using rrSig_round [OF M1 m(1), of r] rrSig_round [OF M1 m(2), of r']
    by (simp add: a_def b_def a'_def b'_def)
  from rrSig_round_inj [OF M r this] have rr: "r = r'" .
  have d: "distinct ((rotateTeams ^^ r) xs)" "length ((rotateTeams ^^ r) xs) = Suc M"
    using xs by simp_all
  have inj2: "(rotateTeams ^^ r) xs ! u = (rotateTeams ^^ r) xs ! v \<longleftrightarrow> u = v"
    if "u \<le> M" "v \<le> M" for u v
    using that d by (simp add: nth_eq_iff_index_eq)
  from eq have "(m = m' \<and> M - m = M - m') \<or> (m = M - m' \<and> M - m = m')"
    unfolding rr [symmetric] doubleton_eq_iff using mM by (simp add: inj2)
  moreover have "m \<noteq> M - m'"
  proof
    assume "m = M - m'"
    with mM have "m + m' = M" by simp
    with m M show False by presburger
  qed
  ultimately show ?thesis using rr by simp
qed

lemma allPairs_product:
  assumes "length xs = Suc M"
  shows "allPairs xs =
     map (\<lambda>(r, m). ((rotateTeams ^^ r) xs ! m, (rotateTeams ^^ r) xs ! (M - m)))
         (List.product [0..<M] [0..<Suc M div 2])"
  using assms
  by (simp add: allPairs_def roundPairs_def product_concat_map map_concat comp_def)

lemma distinct_pairSets:
  assumes "distinct xs" and "length xs = Suc M" and "odd M"
  shows "distinct (map pairSet (allPairs xs))"
proof -
  let ?f = "\<lambda>(r, m). {(rotateTeams ^^ r) xs ! m, (rotateTeams ^^ r) xs ! (M - m)}"
  have "inj_on ?f (set (List.product [0..<M] [0..<Suc M div 2]))"
  proof (rule inj_onI)
    fix p q
    assume p: "p \<in> set (List.product [0..<M] [0..<Suc M div 2])"
      and q: "q \<in> set (List.product [0..<M] [0..<Suc M div 2])"
      and eq: "?f p = ?f q"
    obtain r m where pp: "p = (r, m)" by (cases p)
    obtain r' m' where qq: "q = (r', m')" by (cases q)
    from p q pp qq have "r < M" "r' < M" "2 * m < Suc M" "2 * m' < Suc M" by auto
    from round_pair_inj [OF assms this] eq pp qq show "p = q" by simp
  qed
  moreover have "distinct (List.product [0..<M] [0..<Suc M div 2])"
    by (simp add: distinct_product)
  ultimately have "distinct (map ?f (List.product [0..<M] [0..<Suc M div 2]))"
    by (simp add: distinct_map)
  moreover have "map pairSet (allPairs xs) = map ?f (List.product [0..<M] [0..<Suc M div 2])"
    by (simp add: allPairs_product [OF assms(2)] pairSet_def comp_def case_prod_beta)
  ultimately show ?thesis by simp
qed

lemma pairSets_two_subsets:
  assumes "distinct xs" and "length xs = Suc M" and "odd M"
  shows "set (map pairSet (allPairs xs)) \<subseteq> {S. S \<subseteq> set xs \<and> card S = 2}"
proof
  fix S
  assume "S \<in> set (map pairSet (allPairs xs))"
  then obtain r m where rm: "r < M" "m < Suc M div 2"
    and S: "S = {(rotateTeams ^^ r) xs ! m, (rotateTeams ^^ r) xs ! (M - m)}"
    by (auto simp: allPairs_product [OF assms(2)] pairSet_def)
  let ?tw = "(rotateTeams ^^ r) xs"
  have d: "distinct ?tw" "length ?tw = Suc M" "set ?tw = set xs" using assms by simp_all
  from rm assms(3) have m: "m \<le> M" "M - m \<le> M" "m \<noteq> M - m" by presburger+
  have "?tw ! m \<noteq> ?tw ! (M - m)"
    using m d by (simp add: nth_eq_iff_index_eq)
  moreover have "?tw ! m \<in> set xs" "?tw ! (M - m) \<in> set xs"
    using nth_mem [of m ?tw] nth_mem [of "M - m" ?tw] m(1,2) assms(2) by simp_all
  ultimately show "S \<in> {S. S \<subseteq> set xs \<and> card S = 2}"
    using S by simp
qed

lemma length_allPairs:
  "length xs = Suc M \<Longrightarrow> length (allPairs xs) = M * (Suc M div 2)"
  by (simp add: allPairs_product)

lemma pairSets_all:
  assumes "distinct xs" and "length xs = Suc M" and "odd M"
  shows "set (map pairSet (allPairs xs)) = {S. S \<subseteq> set xs \<and> card S = 2}"
proof (rule card_subset_eq)
  show "finite {S. S \<subseteq> set xs \<and> card S = 2}" by simp
  show "set (map pairSet (allPairs xs)) \<subseteq> {S. S \<subseteq> set xs \<and> card S = 2}"
    by (rule pairSets_two_subsets [OF assms])
  have "card (set (map pairSet (allPairs xs))) = length (map pairSet (allPairs xs))"
    using distinct_pairSets [OF assms] by (rule distinct_card)
  also have "\<dots> = M * (Suc M div 2)" by (simp add: length_allPairs [OF assms(2)])
  also have "\<dots> = Suc M * M div 2"
  proof -
    from assms(3) have "even (Suc M)" by simp
    then obtain k where "Suc M = 2 * k" by (elim evenE)
    then show ?thesis by (simp add: mult.commute)
  qed
  also have "\<dots> = Suc M choose 2" by (simp add: choose_two)
  also have "\<dots> = card {S. S \<subseteq> set xs \<and> card S = 2}"
    using n_subsets [of "set xs" 2] assms(1,2) by (simp add: distinct_card)
  finally show "card (set (map pairSet (allPairs xs))) = card {S. S \<subseteq> set xs \<and> card S = 2}" .
qed

lemma teamsWithByeOf_facts:
  assumes "2 \<le> n"
  shows "distinct (teamsWithByeOf n)"
    and "\<exists>M. length (teamsWithByeOf n) = Suc M \<and> odd M"
    and "set (teamsWithByeOf n) - {-1} = int ` {0..<n}"
proof -
  show "distinct (teamsWithByeOf n)"
    by (auto simp: teamsWithByeOf_def distinct_map inj_on_def)
  show "set (teamsWithByeOf n) - {-1} = int ` {0..<n}"
    by (auto simp: teamsWithByeOf_def)
  show "\<exists>M. length (teamsWithByeOf n) = Suc M \<and> odd M"
  proof (cases "n mod 2 = 1")
    case True
    then have "length (teamsWithByeOf n) = Suc n \<and> odd n"
      by (simp add: teamsWithByeOf_def odd_iff_mod_2_eq_one)
    then show ?thesis by blast
  next
    case False
    then have "even n" by presburger
    with assms have "length (teamsWithByeOf n) = Suc (n - 1) \<and> odd (n - 1)"
      by (simp add: teamsWithByeOf_def False)
    then show ?thesis by blast
  qed
qed

lemma core_pairs:
  "map (\<lambda>c. (fst c, fst (snd c))) (concat (map (\<lambda>r. roundChunk r (f r)) rs)) =
   map (\<lambda>p. (Some (fst p), Some (snd p))) (filter realPair (concat (map (\<lambda>r. roundPairs (f r)) rs)))"
  by (induction rs) (simp_all add: roundChunk_def comp_def)

lemma roundRobin_pairs:
  "map (\<lambda>m. (homeTeamIndex m, awayTeamIndex m)) (matches (generateRoundRobin n)) =
   map (\<lambda>p. (Some (fst p), Some (snd p))) (filter realPair (allPairs (teamsWithByeOf n)))"
proof -
  have "map (\<lambda>m. (homeTeamIndex m, awayTeamIndex m)) (matches (generateRoundRobin n)) =
        map (\<lambda>c. (fst c, fst (snd c))) (map matchCore (matches (generateRoundRobin n)))"
    by (simp add: matchCore_def comp_def)
  then show ?thesis
    by (simp only: generateRoundRobin_core Let_def core_pairs allPairs_def teamsWithByeOf_def)
qed

lemma realPair_sets:
  "map pairSet (filter realPair ps) = filter (\<lambda>S. -1 \<notin> S) (map pairSet ps)"
  by (induction ps) (auto simp: realPair_def pairSet_def)

lemma real_pairSets:
  assumes "2 \<le> n"
  shows "distinct (map pairSet (filter realPair (allPairs (teamsWithByeOf n))))"
    and "set (map pairSet (filter realPair (allPairs (teamsWithByeOf n)))) =
           {S. S \<subseteq> int ` {0..<n} \<and> card S = 2}"
proof -
  from teamsWithByeOf_facts(2) [OF assms] obtain M where
    M: "length (teamsWithByeOf n) = Suc M" "odd M" by blast
  note d = teamsWithByeOf_facts(1) [OF assms]
  show "distinct (map pairSet (filter realPair (allPairs (teamsWithByeOf n))))"
    using distinct_pairSets [OF d M] by (simp only: realPair_sets distinct_filter)
  have "set (map pairSet (filter realPair (allPairs (teamsWithByeOf n)))) =
          {S. S \<subseteq> set (teamsWithByeOf n) \<and> card S = 2 \<and> -1 \<notin> S}"
    unfolding realPair_sets set_filter pairSets_all [OF d M] by auto
  also have "\<dots> = {S. S \<subseteq> set (teamsWithByeOf n) - {-1} \<and> card S = 2}"
    by auto
  finally show "set (map pairSet (filter realPair (allPairs (teamsWithByeOf n)))) =
           {S. S \<subseteq> int ` {0..<n} \<and> card S = 2}"
    by (simp only: teamsWithByeOf_facts(3) [OF assms])
qed

lemma roundRobin_count:
  assumes "2 \<le> n"
  shows "length (matches (generateRoundRobin n)) = n * (n - 1) div 2"
proof -
  have "length (matches (generateRoundRobin n)) =
        length (map (\<lambda>m. (homeTeamIndex m, awayTeamIndex m)) (matches (generateRoundRobin n)))"
    by simp
  also have "\<dots> = length (map pairSet (filter realPair (allPairs (teamsWithByeOf n))))"
    by (simp only: roundRobin_pairs length_map)
  also have "\<dots> = card {S. S \<subseteq> int ` {0..<n} \<and> card S = 2}"
    using distinct_card [OF real_pairSets(1) [OF assms]]
    by (simp only: real_pairSets(2) [OF assms])
  also have "\<dots> = n choose 2"
    using n_subsets [of "int ` {0..<n}" 2] by (simp add: card_image)
  finally show ?thesis by (simp add: choose_two)
qed

lemma roundRobin_pair_once:
  assumes "2 \<le> n" and "i < j" and "j < n"
  shows "length (filter (\<lambda>m. {homeTeamIndex m, awayTeamIndex m} = {Some (int i), Some (int j)})
                        (matches (generateRoundRobin n))) = 1"
proof -
  let ?ps = "filter realPair (allPairs (teamsWithByeOf n))"
  let ?Q = "\<lambda>q. {fst q, snd q} = {Some (int i), Some (int j)}"
  have "length (filter (\<lambda>m. {homeTeamIndex m, awayTeamIndex m} = {Some (int i), Some (int j)})
                        (matches (generateRoundRobin n))) =
        length (filter ?Q (map (\<lambda>m. (homeTeamIndex m, awayTeamIndex m))
                               (matches (generateRoundRobin n))))"
    by (simp add: filter_map comp_def)
  also have "\<dots> = length (filter ?Q (map (\<lambda>p. (Some (fst p), Some (snd p))) ?ps))"
    by (simp only: roundRobin_pairs)
  also have "\<dots> = length (filter (\<lambda>S. S = {int i, int j}) (map pairSet ?ps))"
  proof -
    have "{Some a, Some b} = {Some (int i), Some (int j)} \<longleftrightarrow> {a, b} = {int i, int j}" for a b
      by (auto simp: doubleton_eq_iff)
    then show ?thesis by (simp add: filter_map comp_def pairSet_def)
  qed
  also have "\<dots> = card ({S. S = {int i, int j}} \<inter> set (map pairSet ?ps))"
    using real_pairSets(1) [OF assms(1)] by (rule distinct_length_filter)
  also have "{S. S = {int i, int j}} \<inter> set (map pairSet ?ps) = {{int i, int j}}"
    using assms(2,3) by (auto simp only: real_pairSets(2) [OF assms(1)]) auto
  finally show ?thesis by simp
qed

lemma roundPairs_zip:
  assumes "even (length tw)"
  shows "roundPairs tw = zip (take (length tw div 2) tw) (rev (drop (length tw div 2) tw))"
proof -
  from assms obtain h where N: "length tw = 2 * h" by (elim evenE)
  then have hh: "length tw div 2 = h" by simp
  have l: "length (drop h tw) = h" using N by simp
  have "map (\<lambda>m. (tw ! m, tw ! (length tw - 1 - m))) [0..<h] = zip (take h tw) (rev (drop h tw))"
  proof (rule nth_equalityI)
    show "length (map (\<lambda>m. (tw ! m, tw ! (length tw - 1 - m))) [0..<h]) =
          length (zip (take h tw) (rev (drop h tw)))"
      using N by simp
    fix m
    assume "m < length (map (\<lambda>m. (tw ! m, tw ! (length tw - 1 - m))) [0..<h])"
    then have m: "m < h" by simp
    then have "rev (drop h tw) ! m = drop h tw ! (h - Suc m)"
      using l by (simp add: rev_nth)
    also have "\<dots> = tw ! (h + (h - Suc m))"
      using N by (intro nth_drop) simp
    also have "h + (h - Suc m) = length tw - 1 - m"
      using m N by linarith
    finally have "rev (drop h tw) ! m = tw ! (length tw - 1 - m)" .
    then show "map (\<lambda>m. (tw ! m, tw ! (length tw - 1 - m))) [0..<h] ! m =
               zip (take h tw) (rev (drop h tw)) ! m"
      using m l N by simp
  qed
  then show ?thesis by (simp add: roundPairs_def hh)
qed

lemma set_zip_teams:
  "set (concat (map (\<lambda>p. [fst p, snd p]) (zip as bs))) \<subseteq> set as \<union> set bs"
  by (auto dest: set_zip_leftD set_zip_rightD)

lemma distinct_zip_teams:
  "distinct as \<Longrightarrow> distinct bs \<Longrightarrow> set as \<inter> set bs = {} \<Longrightarrow>
   distinct (concat (map (\<lambda>p. [fst p, snd p]) (zip as bs)))"
proof (induction as arbitrary: bs)
  case Nil
  then show ?case by simp
next
  case (Cons a as)
  show ?case
  proof (cases bs)
    case Nil
    then show ?thesis by simp
  next
    case (Cons b bs')
    from Cons.prems Cons have IH: "distinct (concat (map (\<lambda>p. [fst p, snd p]) (zip as bs')))"
      by (intro Cons.IH) auto
    have "a \<notin> set as \<union> set bs'" "b \<notin> set as \<union> set bs'" "a \<noteq> b"
      using Cons.prems Cons by auto
    with set_zip_teams [of as bs'] IH Cons show ?thesis by auto
  qed
qed

lemma distinct_filter_teams:
  "distinct (concat (map (\<lambda>p. [fst p, snd p]) ps)) \<Longrightarrow>
   distinct (concat (map (\<lambda>p. [fst p, snd p]) (filter P ps)))"
proof (induction ps)
  case Nil
  then show ?case by simp
next
  case (Cons p ps)
  have "set (concat (map (\<lambda>p. [fst p, snd p]) (filter P ps))) \<subseteq>
        set (concat (map (\<lambda>p. [fst p, snd p]) ps))"
    by auto
  with Cons show ?case by auto
qed

lemma distinct_roundChunk:
  assumes "distinct tw" and "even (length tw)"
  shows "distinct (concat (map (\<lambda>c. [fst c, fst (snd c)]) (roundChunk r tw)))"
proof -
  let ?h = "length tw div 2"
  have "distinct (take ?h tw @ drop ?h tw)" using assms(1) by simp
  then have "distinct (take ?h tw)" "distinct (rev (drop ?h tw))"
    "set (take ?h tw) \<inter> set (rev (drop ?h tw)) = {}"
    by (simp_all only: distinct_append distinct_rev set_rev)
  then have "distinct (concat (map (\<lambda>p. [fst p, snd p]) (roundPairs tw)))"
    unfolding roundPairs_zip [OF assms(2)] by (rule distinct_zip_teams)
  then have "distinct (concat (map (\<lambda>p. [fst p, snd p]) (filter realPair (roundPairs tw))))"
    by (rule distinct_filter_teams)
  moreover have "concat (map (\<lambda>c. [fst c, fst (snd c)]) (roundChunk r tw)) =
     map Some (concat (map (\<lambda>p. [fst p, snd p]) (filter realPair (roundPairs tw))))"
    by (simp add: roundChunk_def map_concat comp_def)
  ultimately show ?thesis by (simp add: distinct_map)
qed

lemma round_of_roundChunk: "c \<in> set (roundChunk r tw) \<Longrightarrow> snd (snd c) = r + 1"
  by (auto simp: roundChunk_def)

lemma filter_round_chunks:
  "filter (\<lambda>c. snd (snd c) = k) (concat (map (\<lambda>r. roundChunk r (f r)) [0..<R])) =
     (if 1 \<le> k \<and> k \<le> R then roundChunk (k - 1) (f (k - 1)) else [])"
proof (induction R)
  case 0
  then show ?case by auto
next
  case (Suc R)
  have last: "filter (\<lambda>c. snd (snd c) = k) (roundChunk R (f R)) =
                (if k = R + 1 then roundChunk R (f R) else [])"
    by (auto simp: filter_empty_conv filter_id_conv dest: round_of_roundChunk)
  show ?case
    using Suc by (auto simp: last)
qed

lemma roundRobin_rounds_disjoint:
  assumes "2 \<le> n"
  shows "distinct (concat (map (\<lambda>m. [homeTeamIndex m, awayTeamIndex m])
                               (filter (\<lambda>m. round m = k) (matches (generateRoundRobin n)))))"
proof -
  let ?ms = "matches (generateRoundRobin n)"
  let ?tw = "teamsWithByeOf n"
  from teamsWithByeOf_facts(2) [OF assms] obtain M where
    M: "length ?tw = Suc M" "odd M" by blast
  have "concat (map (\<lambda>m. [homeTeamIndex m, awayTeamIndex m]) (filter (\<lambda>m. round m = k) ?ms)) =
        concat (map (\<lambda>c. [fst c, fst (snd c)])
                    (filter (\<lambda>c. snd (snd c) = k) (map matchCore ?ms)))"
    by (simp add: filter_map comp_def matchCore_def)
  also have "map matchCore ?ms =
        concat (map (\<lambda>r. roundChunk r ((rotateTeams ^^ r) ?tw)) [0..<length ?tw - 1])"
    by (simp only: generateRoundRobin_core Let_def teamsWithByeOf_def)
  also have "filter (\<lambda>c. snd (snd c) = k) \<dots> =
        (if 1 \<le> k \<and> k \<le> length ?tw - 1
         then roundChunk (k - 1) ((rotateTeams ^^ (k - 1)) ?tw) else [])"
    by (rule filter_round_chunks)
  finally show ?thesis
    using distinct_roundChunk [of "(rotateTeams ^^ (k - 1)) ?tw" "k - 1"]
          teamsWithByeOf_facts(1) [OF assms] M
    by simp
qed

text \<open>
  C1. For every team count \<open>n\<close> of at least 2, \<open>generateRoundRobin n\<close> produces exactly
  \<open>n * (n - 1) / 2\<close> matches; every unordered pair of distinct indices below \<open>n\<close> is
  the home/away pair of exactly one match; and among the matches of one round number no
  team index occurs twice.
\<close>

theorem round_robin_schedule:
  assumes "2 \<le> n"
  shows "length (matches (generateRoundRobin n)) = n * (n - 1) div 2 \<and>
         (\<forall>i j. i < j \<and> j < n \<longrightarrow>
            length (filter (\<lambda>m. {homeTeamIndex m, awayTeamIndex m} = {Some (int i), Some (int j)})
                           (matches (generateRoundRobin n))) = 1) \<and>
         (\<forall>k. distinct (concat (map (\<lambda>m. [homeTeamIndex m, awayTeamIndex m])
                                     (filter (\<lambda>m. round m = k) (matches (generateRoundRobin n))))))"
  using roundRobin_count [OF assms] roundRobin_pair_once [OF assms]
        roundRobin_rounds_disjoint [OF assms]
  by blast

theorem round_robin_schedule_witness:
  "length (matches (generateRoundRobin 5)) = 10 \<and>
   length (filter (\<lambda>m. {homeTeamIndex m, awayTeamIndex m} = {Some 1, Some 3})
                  (matches (generateRoundRobin 5))) = 1 \<and>
   distinct (concat (map (\<lambda>m. [homeTeamIndex m, awayTeamIndex m])
                         (filter (\<lambda>m. round m = 2) (matches (generateRoundRobin 5)))))"
proof -
  have "(2::nat) \<le> 5" by simp
  from round_robin_schedule [OF this] have
    a: "length (matches (generateRoundRobin 5)) = 5 * (5 - 1) div 2" and
    b: "\<And>i j. i < j \<and> j < 5 \<Longrightarrow>
          length (filter (\<lambda>m. {homeTeamIndex m, awayTeamIndex m} = {Some (int i), Some (int j)})
                         (matches (generateRoundRobin 5))) = 1" and
    c: "\<And>k. distinct (concat (map (\<lambda>m. [homeTeamIndex m, awayTeamIndex m])
                                 (filter (\<lambda>m. round m = k) (matches (generateRoundRobin 5)))))"
    by blast+
  have "(1::nat) < 3 \<and> (3::nat) < 5" by simp
  from b [OF this] a c [of 2] show ?thesis by simp
qed

end
